theory Spec2Isabelle
  imports Main "HOL-Library.Word"
begin

unbundle bit_operations_syntax

section \<open>UART receive ring (both firmware variants)\<close>

text \<open>
  \<^verbatim>\<open>volatile char rx_buffer[BUFFER_SIZE]; volatile uint8_t head = 0, tail = 0;\<close>
  A C \<^verbatim>\<open>char\<close> is one byte; \<^verbatim>\<open>uint8_t\<close> is an 8-bit word. The array is a list of
  \<open>BUFFER_SIZE\<close> bytes. Arithmetic on \<^verbatim>\<open>head\<close> and \<^verbatim>\<open>tail\<close> happens after integer
  promotion, so \<^verbatim>\<open>(head + 1) % BUFFER_SIZE\<close> is computed on the unsigned value and only
  then stored back into eight bits.
\<close>

type_synonym byte = "8 word"

definition BUFFER_SIZE :: nat where
  "BUFFER_SIZE = 64"

record ring =
  rx_buffer :: "byte list"
  head :: "8 word"
  tail :: "8 word"

definition ring_init :: ring where
  "ring_init = \<lparr>rx_buffer = replicate BUFFER_SIZE 0, head = 0, tail = 0\<rparr>"

text \<open>uart_command_logger.X/main.c, lines 24-25: the predicates return \<^verbatim>\<open>uint8_t\<close> 0 or 1.\<close>

definition buffer_is_empty :: "ring \<Rightarrow> 8 word" where
  "buffer_is_empty s = (if head s = tail s then 1 else 0)"

definition buffer_is_full :: "ring \<Rightarrow> 8 word" where
  "buffer_is_full s = (if (unat (head s) + 1) mod BUFFER_SIZE = unat (tail s) then 1 else 0)"

text \<open>
  uart_command_logger.X/main.c, lines 27-32. The result is the returned \<^verbatim>\<open>char\<close> and the
  ring afterwards; \<^verbatim>\<open>return -1\<close> converts the integer to a one-byte \<^verbatim>\<open>char\<close>.
\<close>

definition buffer_read :: "ring \<Rightarrow> byte \<times> ring" where
  "buffer_read s =
     (if buffer_is_empty s \<noteq> 0 then (- 1, s)
      else (rx_buffer s ! unat (tail s),
            s\<lparr>tail := of_nat ((unat (tail s) + 1) mod BUFFER_SIZE)\<rparr>))"

text \<open>
  uart_command_logger.X/main.c, lines 34-41: the receive interrupt, with the byte read
  from \<^verbatim>\<open>UDR0\<close> as its argument.
\<close>

definition USART_RX_vect :: "byte \<Rightarrow> ring \<Rightarrow> ring" where
  "USART_RX_vect data s =
     (let next = (of_nat ((unat (head s) + 1) mod BUFFER_SIZE) :: 8 word)
      in if next \<noteq> tail s
         then s\<lparr>rx_buffer := (rx_buffer s)[unat (head s) := data], head := next\<rparr>
         else s)"

text \<open>
  uart_with_ring_buffer.X/main.c: the same ring under other names (lines 17-24, 43-50,
  67-76), and \<^verbatim>\<open>uart_echo\<close> (lines 59-64), whose result here is the bytes handed to
  \<^verbatim>\<open>uart_send\<close> and the ring afterwards.
\<close>

definition is_buffer_empty :: "ring \<Rightarrow> 8 word" where
  "is_buffer_empty s = (if head s = tail s then 1 else 0)"

definition is_buffer_full :: "ring \<Rightarrow> 8 word" where
  "is_buffer_full s = (if (unat (head s) + 1) mod BUFFER_SIZE = unat (tail s) then 1 else 0)"

definition uart_read :: "ring \<Rightarrow> byte \<times> ring" where
  "uart_read s =
     (if is_buffer_empty s \<noteq> 0 then (- 1, s)
      else (rx_buffer s ! unat (tail s),
            s\<lparr>tail := of_nat ((unat (tail s) + 1) mod BUFFER_SIZE)\<rparr>))"

definition uart_echo :: "ring \<Rightarrow> byte list \<times> ring" where
  "uart_echo s =
     (if is_buffer_empty s = 0 then (let (c, s') = uart_read s in ([c], s')) else ([], s))"

definition USART_RX_vect_rb :: "byte \<Rightarrow> ring \<Rightarrow> ring" where
  "USART_RX_vect_rb data s =
     (let next_head = (of_nat ((unat (head s) + 1) mod BUFFER_SIZE) :: 8 word)
      in if next_head \<noteq> tail s
         then s\<lparr>rx_buffer := (rx_buffer s)[unat (head s) := data], head := next_head\<rparr>
         else s)"

subsection \<open>Reading the ring as a queue\<close>

text \<open>
  Both indices stay below \<open>BUFFER_SIZE\<close> and the array keeps its size (\<open>ring_wf\<close>, which
  holds at start-up and is kept by the interrupt and by a read), so the array accesses
  of the code are always in bounds; an index of \<open>BUFFER_SIZE\<close> or more, undefined in C,
  does not arise. The unread bytes are the slots from \<open>tail\<close> up to, and not including,
  \<open>head\<close>, wrapping around.
\<close>

definition ring_wf :: "ring \<Rightarrow> bool" where
  "ring_wf s \<longleftrightarrow>
     length (rx_buffer s) = BUFFER_SIZE \<and> unat (head s) < BUFFER_SIZE \<and> unat (tail s) < BUFFER_SIZE"

definition ring_count :: "ring \<Rightarrow> nat" where
  "ring_count s = (unat (head s) + BUFFER_SIZE - unat (tail s)) mod BUFFER_SIZE"

definition ring_contents :: "ring \<Rightarrow> byte list" where
  "ring_contents s =
     map (\<lambda>i. rx_buffer s ! ((unat (tail s) + i) mod BUFFER_SIZE)) [0..<ring_count s]"

text \<open>
  A run of producer and consumer steps. \<open>Push b\<close> is one receive interrupt with byte
  \<open>b\<close>; \<open>Pop\<close> is one call of \<^verbatim>\<open>buffer_read\<close>. A call that finds the ring empty gives
  the answer "nothing there" (by the sentinel; \<^verbatim>\<open>main\<close>, lines 213-214, and \<^verbatim>\<open>uart_echo\<close>
  ask \<^verbatim>\<open>buffer_is_empty\<close> first and do not call at all), so what it returns is not a
  byte read. The result of a run is the bytes read, in order, and the ring afterwards.
\<close>

datatype ring_op = Push byte | Pop

fun ring_run :: "ring_op list \<Rightarrow> ring \<Rightarrow> byte list \<times> ring" where
  "ring_run [] s = ([], s)"
| "ring_run (Push b # ops) s = ring_run ops (USART_RX_vect b s)"
| "ring_run (Pop # ops) s =
     (let (c, s') = buffer_read s; (out, t) = ring_run ops s'
      in (if buffer_is_empty s = 0 then c # out else out, t))"

fun pushed :: "ring_op list \<Rightarrow> byte list" where
  "pushed [] = []"
| "pushed (Push b # ops) = b # pushed ops"
| "pushed (Pop # ops) = pushed ops"

text \<open>
  The queue as the specification describes it (sections 3 and 4.1): a first-in
  first-out sequence of bytes with \<open>BUFFER_SIZE - 1\<close> usable places. A push onto a
  full queue drops the byte; a pop takes the oldest byte, or reports that there is
  none. \<open>fifo_run ops q\<close> gives the bytes popped and the queue afterwards. It knows
  nothing of the array, of \<open>head\<close> or of \<open>tail\<close>.
\<close>

fun fifo_run :: "ring_op list \<Rightarrow> byte list \<Rightarrow> byte list \<times> byte list" where
  "fifo_run [] q = ([], q)"
| "fifo_run (Push b # ops) q =
     fifo_run ops (if length q < BUFFER_SIZE - 1 then q @ [b] else q)"
| "fifo_run (Pop # ops) [] = fifo_run ops []"
| "fifo_run (Pop # ops) (x # q) = (let (out, r) = fifo_run ops q in (x # out, r))"

text \<open>
  A concrete situation for the examples: an empty ring whose indices stand at 60, so
  that the next pushes wrap around the end of the array; 63 pushes of the bytes 1 to
  63, which fill it, one more push, and one read.
\<close>

definition ring_at_60 :: ring where
  "ring_at_60 = \<lparr>rx_buffer = replicate BUFFER_SIZE 0, head = 60, tail = 60\<rparr>"

definition fill_ops :: "ring_op list" where
  "fill_ops = map Push (map of_nat [1..<64])"

section \<open>Task queue (uart_command_logger.X/main.c)\<close>

text \<open>
  \<^verbatim>\<open>struct TaskNode { char data[MAX_CMD_LEN]; uint16_t delay_ticks; uint8_t priority;
  struct TaskNode* next; }\<close>. The chain that starts at \<^verbatim>\<open>log_head\<close> is a list, front
  first; each element is a node's address (what \<^verbatim>\<open>malloc\<close> returned for it) and its three
  data fields. The \<^verbatim>\<open>next\<close> field of a node is the address of the element behind it, or
  NULL (0) at the end of the list. Pointers have 16 bits on the AVR.
\<close>

definition MAX_CMD_LEN :: nat where
  "MAX_CMD_LEN = 32"

definition MAX_LOGS :: nat where
  "MAX_LOGS = 10"

definition TICK_MS :: "16 word" where
  "TICK_MS = 10"

type_synonym ptr = "16 word"

record TaskNode =
  data :: "byte list"
  delay_ticks :: "16 word"
  priority :: "8 word"

type_synonym chain = "(ptr \<times> TaskNode) list"

definition next_ptr :: "chain \<Rightarrow> ptr" where
  "next_ptr rest = (case rest of [] \<Rightarrow> 0 | (p, n) # xs \<Rightarrow> p)"

text \<open>
  A C string argument is given by the bytes found at the pointer; the string is what
  precedes the first zero byte. \<^verbatim>\<open>strncpy(dst, src, n)\<close> copies at most \<open>n\<close> bytes of
  the string and fills the rest of the \<open>n\<close> bytes with zeros.
\<close>

definition cstr :: "byte list \<Rightarrow> byte list" where
  "cstr bs = takeWhile (\<lambda>c. c \<noteq> 0) bs"

definition strncpy :: "byte list \<Rightarrow> nat \<Rightarrow> byte list" where
  "strncpy src n = (let s = take n (cstr src) in s @ replicate (n - length s) 0)"

definition str :: "string \<Rightarrow> byte list" where
  "str s = map of_char s"

text \<open>
  Lines 75-78 of \<^verbatim>\<open>add_log\<close>: the fields of the new node. \<^verbatim>\<open>delay_ms / TICK_MS\<close> is an
  unsigned division of a 16-bit value.
\<close>

definition new_task :: "byte list \<Rightarrow> 16 word \<Rightarrow> 8 word \<Rightarrow> TaskNode" where
  "new_task msg delay_ms prio =
     \<lparr>data = strncpy msg (MAX_CMD_LEN - 1) @ [0],
      delay_ticks = delay_ms div TICK_MS,
      priority = prio\<rparr>"

text \<open>
  Lines 87-92: the walk. The argument is the chain behind \<^verbatim>\<open>temp\<close>, the result is that
  chain with the new node linked in: while there is a next node whose priority is at
  most the new one, \<^verbatim>\<open>temp\<close> moves on; then the node goes between \<^verbatim>\<open>temp\<close> and its
  successor.
\<close>

fun insert_after :: "ptr \<times> TaskNode \<Rightarrow> chain \<Rightarrow> chain" where
  "insert_after new [] = [new]"
| "insert_after new (nxt # rest) =
     (if priority (snd nxt) \<le> priority (snd new) then nxt # insert_after new rest
      else new # nxt # rest)"

text \<open>
  \<^verbatim>\<open>add_log\<close>, lines 72-93. \<open>new_node\<close> is the result of the call of \<^verbatim>\<open>malloc\<close>; NULL makes
  the function return at once.
\<close>

definition add_log :: "ptr \<Rightarrow> byte list \<Rightarrow> 16 word \<Rightarrow> 8 word \<Rightarrow> chain \<Rightarrow> chain" where
  "add_log new_node msg delay_ms prio log_head =
     (if new_node = 0 then log_head
      else (let new = (new_node, new_task msg delay_ms prio)
            in case log_head of
                 [] \<Rightarrow> [new]
               | first # rest \<Rightarrow>
                   if prio < priority (snd first) then new # first # rest
                   else first # insert_after new rest))"

fun add_logs :: "(ptr \<times> byte list \<times> 16 word \<times> 8 word) list \<Rightarrow> chain \<Rightarrow> chain" where
  "add_logs [] q = q"
| "add_logs ((new_node, msg, delay_ms, prio) # ins) q =
     add_logs ins (add_log new_node msg delay_ms prio q)"

text \<open>
  \<^verbatim>\<open>print_log\<close>, lines 95-104: one entry per node, front to back; an entry is the
  triple of values that line 100 hands to \<^verbatim>\<open>snprintf\<close> (the running count, the priority,
  the text). The layout of the line in the 50-byte buffer is not modelled. The text of
  a node is read as a C string, up to the first zero byte; a node made by \<^verbatim>\<open>add_log\<close>
  always has one, at the latest in the last element of the array. (A node loaded from
  a store image without a zero byte in its first \<open>MAX_CMD_LEN\<close> bytes would make the
  C code read on past the array; \<open>cstr\<close> stops at the end of the array.)
\<close>

fun print_loop :: "int \<Rightarrow> chain \<Rightarrow> (int \<times> 8 word \<times> byte list) list" where
  "print_loop count [] = []"
| "print_loop count ((p, n) # rest) =
     (count, priority n, cstr (data n)) # print_loop (count + 1) rest"

definition print_log :: "chain \<Rightarrow> (int \<times> 8 word \<times> byte list) list" where
  "print_log log_head = print_loop 1 log_head"

text \<open>
  \<^verbatim>\<open>execute_tasks\<close>, lines 132-159: one pass over the chain. A node with a positive
  count is decremented and stays; a node whose count is zero has its text sent
  (\<^verbatim>\<open>"Task: "\<close>, the text, a newline), is unlinked and freed. The result is the bytes sent
  to the UART during the pass and the chain afterwards. Unlinking at the front
  (\<^verbatim>\<open>prev == NULL\<close>) and behind \<^verbatim>\<open>prev\<close> are the same step on the list.
\<close>

definition task_msg :: "TaskNode \<Rightarrow> byte list" where
  "task_msg n = str ''Task: '' @ cstr (data n) @ [10]"

fun execute_tasks :: "chain \<Rightarrow> byte list \<times> chain" where
  "execute_tasks [] = ([], [])"
| "execute_tasks ((p, n) # rest) =
     (if delay_ticks n > 0
      then (let (out, rest') = execute_tasks rest
            in (out, (p, n\<lparr>delay_ticks := delay_ticks n - 1\<rparr>) # rest'))
      else (let (out, rest') = execute_tasks rest
            in (task_msg n @ out, rest')))"

text \<open>
  The scheduler calls \<^verbatim>\<open>execute_tasks\<close> once per observed tick (\<^verbatim>\<open>main\<close>, lines 225-228).
  \<open>queue_after k q\<close> is the chain after \<open>k\<close> calls; \<open>tick_output j q\<close> is what call
  number \<open>j + 1\<close> sends.
\<close>

fun queue_after :: "nat \<Rightarrow> chain \<Rightarrow> chain" where
  "queue_after 0 q = q"
| "queue_after (Suc k) q = queue_after k (snd (execute_tasks q))"

definition tick_output :: "nat \<Rightarrow> chain \<Rightarrow> byte list" where
  "tick_output j q = fst (execute_tasks (queue_after j q))"

text \<open>
  An insertion request is the result of \<^verbatim>\<open>malloc\<close> together with the three arguments of
  \<^verbatim>\<open>add_log\<close>. \<open>entry_of\<close> is the queue element that a request with a successful
  allocation creates, \<open>prio_of\<close> the priority it asks for.
\<close>

definition entry_of :: "ptr \<times> byte list \<times> 16 word \<times> 8 word \<Rightarrow> ptr \<times> TaskNode" where
  "entry_of r = (case r of (new_node, msg, delay_ms, prio) \<Rightarrow> (new_node, new_task msg delay_ms prio))"

definition prio_of :: "ptr \<times> byte list \<times> 16 word \<times> 8 word \<Rightarrow> 8 word" where
  "prio_of r = (case r of (new_node, msg, delay_ms, prio) \<Rightarrow> prio)"

definition allocated :: "ptr \<times> byte list \<times> 16 word \<times> 8 word \<Rightarrow> bool" where
  "allocated r = (fst r \<noteq> 0)"

section \<open>Saving and loading the queue (uart_command_logger.X/main.c)\<close>

text \<open>
  The EEPROM is a store of bytes addressed by the 16-bit value that the code passes as
  pointer. \<^verbatim>\<open>eeprom_write_block(src, dst, n)\<close> writes the \<open>n\<close> bytes found at \<^verbatim>\<open>src\<close> to
  the addresses \<open>dst, dst + 1, \<dots>\<close>; \<^verbatim>\<open>eeprom_read_block(dst, src, n)\<close> reads \<open>n\<close> bytes
  from the addresses \<open>src, src + 1, \<dots>\<close>. Both belong to avr-libc, not to this
  repository, and the source never checks an address against the size of the device;
  here the whole 16-bit address space is storage and addresses wrap around at \<open>2^16\<close>.
\<close>

type_synonym store = "16 word \<Rightarrow> byte"

fun eeprom_write_block :: "byte list \<Rightarrow> 16 word \<Rightarrow> store \<Rightarrow> store" where
  "eeprom_write_block [] dst m = m"
| "eeprom_write_block (b # bs) dst m = eeprom_write_block bs (dst + 1) (m(dst := b))"

definition eeprom_read_block :: "16 word \<Rightarrow> nat \<Rightarrow> store \<Rightarrow> byte list" where
  "eeprom_read_block src n m = map (\<lambda>i. m (src + of_nat i)) [0..<n]"

text \<open>
  The bytes of a \<^verbatim>\<open>struct TaskNode\<close> in memory, as avr-gcc lays it out: no padding,
  16-bit values with the low byte first, 16-bit pointers. So \<^verbatim>\<open>sizeof(TaskNode)\<close> is
  \<open>32 + 2 + 1 + 2 = 37\<close>. \<open>node_image n nxt\<close> is the image of a node with the fields
  \<open>n\<close> and the \<^verbatim>\<open>next\<close> pointer \<open>nxt\<close>; \<open>node_of_image\<close> reads the three data fields
  back from such an image.
\<close>

definition sizeof_TaskNode :: nat where
  "sizeof_TaskNode = 37"

definition le16 :: "16 word \<Rightarrow> byte list" where
  "le16 w = [ucast w, ucast (drop_bit 8 w)]"

definition of_le16 :: "byte \<Rightarrow> byte \<Rightarrow> 16 word" where
  "of_le16 lo hi = push_bit 8 (ucast hi) OR ucast lo"

definition node_image :: "TaskNode \<Rightarrow> ptr \<Rightarrow> byte list" where
  "node_image n nxt = data n @ le16 (delay_ticks n) @ [priority n] @ le16 nxt"

definition node_of_image :: "byte list \<Rightarrow> TaskNode" where
  "node_of_image bs =
     \<lparr>data = take MAX_CMD_LEN bs,
      delay_ticks = of_le16 (bs ! MAX_CMD_LEN) (bs ! (MAX_CMD_LEN + 1)),
      priority = bs ! (MAX_CMD_LEN + 2)\<rparr>"

text \<open>
  The globals that saving and loading work on: the cursor \<^verbatim>\<open>uint16_t ee_address = 0\<close>
  (line 107) and the contents of the EEPROM.
\<close>

record persist =
  ee_address :: "16 word"
  eeprom :: store

text \<open>
  \<^verbatim>\<open>save_logs_to_eeprom\<close>, lines 108-116. The loop writes the image of each node at the
  cursor and advances the cursor by \<^verbatim>\<open>sizeof(TaskNode)\<close>; the function does not assign
  the cursor before the loop. The result is the text sent to the UART and the new
  globals.
\<close>

fun save_loop :: "chain \<Rightarrow> persist \<Rightarrow> persist" where
  "save_loop [] s = s"
| "save_loop ((p, n) # rest) s =
     save_loop rest
       (s\<lparr>eeprom := eeprom_write_block (node_image n (next_ptr rest)) (ee_address s) (eeprom s),
          ee_address := ee_address s + of_nat sizeof_TaskNode\<rparr>)"

definition save_logs_to_eeprom :: "chain \<Rightarrow> persist \<Rightarrow> byte list \<times> persist" where
  "save_logs_to_eeprom log_head s = (str ''Logs saved to EEPROM.'' @ [10], save_loop log_head s)"

text \<open>
  \<^verbatim>\<open>load_logs_from_eeprom\<close>, lines 118-129. \<open>malloc i\<close> is the result of the call of
  \<^verbatim>\<open>malloc\<close> in round \<open>i\<close> of the loop; NULL ends the loop. Each round reads one image
  at the cursor into the new node, advances the cursor, and links the node in front
  of the chain (which overwrites the \<^verbatim>\<open>next\<close> field just read).
\<close>

function load_loop :: "nat \<Rightarrow> (nat \<Rightarrow> ptr) \<Rightarrow> chain \<times> persist \<Rightarrow> chain \<times> persist" where
  "load_loop i malloc (log_head, s) =
     (if i < MAX_LOGS
      then (if malloc i = 0 then (log_head, s)
            else load_loop (i + 1) malloc
                   ((malloc i,
                     node_of_image (eeprom_read_block (ee_address s) sizeof_TaskNode (eeprom s)))
                      # log_head,
                    s\<lparr>ee_address := ee_address s + of_nat sizeof_TaskNode\<rparr>))
      else (log_head, s))"
  by pat_completeness auto
termination
  by (relation "measure (\<lambda>(i, malloc, qs). MAX_LOGS - i)") auto

declare load_loop.simps [simp del]

definition load_logs_from_eeprom ::
    "(nat \<Rightarrow> ptr) \<Rightarrow> chain \<Rightarrow> persist \<Rightarrow> byte list \<times> chain \<times> persist" where
  "load_logs_from_eeprom malloc log_head s =
     (let (q, s') = load_loop 0 malloc (log_head, s\<lparr>ee_address := 0\<rparr>)
      in (str ''Logs loaded from EEPROM.'' @ [10], q, s'))"

text \<open>
  Notions used to state the properties. \<open>chain_image q\<close> is what one pass of the save
  loop over \<open>q\<close> writes, record after record. \<open>chain_wf q\<close> says that every node's
  text array has its \<open>MAX_CMD_LEN\<close> bytes. \<open>load_count malloc\<close> is the number of
  rounds of the load loop that get memory: the rounds before the first NULL, at most
  \<open>MAX_LOGS\<close>. \<open>loaded_node m i\<close> is the node that round \<open>i\<close> builds from the store
  \<open>m\<close>.
\<close>

fun chain_image :: "chain \<Rightarrow> byte list" where
  "chain_image [] = []"
| "chain_image ((p, n) # rest) = node_image n (next_ptr rest) @ chain_image rest"

definition chain_wf :: "chain \<Rightarrow> bool" where
  "chain_wf q = list_all (\<lambda>x. length (data (snd x)) = MAX_CMD_LEN) q"

definition load_count :: "(nat \<Rightarrow> ptr) \<Rightarrow> nat" where
  "load_count malloc = length (takeWhile (\<lambda>i. malloc i \<noteq> 0) [0..<MAX_LOGS])"

definition loaded_node :: "store \<Rightarrow> nat \<Rightarrow> TaskNode" where
  "loaded_node m i =
     node_of_image (eeprom_read_block (of_nat (sizeof_TaskNode * i)) sizeof_TaskNode m)"

text \<open>
  The record as the specification describes it: the text buffer, the two bytes of the
  tick count, the byte of the priority, and nothing else.
\<close>

definition spec_record :: "TaskNode \<Rightarrow> byte list" where
  "spec_record n = data n @ le16 (delay_ticks n) @ [priority n]"

text \<open>
  Concrete situations for the examples: an erased EEPROM reads \<open>0xFF\<close> everywhere; at
  power-up the cursor is 0; an allocator that always succeeds, and one that runs out
  of memory after three nodes; ten insertion requests with the priorities 0 to 9, and
  two single requests.
\<close>

definition erased :: store where
  "erased a = 255"

definition boot :: persist where
  "boot = \<lparr>ee_address = 0, eeprom = erased\<rparr>"

definition alloc_ok :: "nat \<Rightarrow> ptr" where
  "alloc_ok i = 512 + 48 * of_nat i"

definition alloc_3 :: "nat \<Rightarrow> ptr" where
  "alloc_3 i = (if i < 3 then alloc_ok i else 0)"

definition ten_requests :: "(ptr \<times> byte list \<times> 16 word \<times> 8 word) list" where
  "ten_requests = map (\<lambda>i. (alloc_ok i, str ''T'' @ [of_nat (48 + i)], of_nat (10 * i), of_nat i)) [0..<10]"

definition request_A :: "ptr \<times> byte list \<times> 16 word \<times> 8 word" where
  "request_A = (alloc_ok 0, str ''A'', 0, 5)"

definition request_B :: "ptr \<times> byte list \<times> 16 word \<times> 8 word" where
  "request_B = (alloc_ok 1, str ''B'', 0, 5)"

section \<open>Properties of the receive ring\<close>

subsection \<open>The two variants agree\<close>

lemma is_buffer_empty_eq: "is_buffer_empty = buffer_is_empty"
  by (rule ext) (simp add: is_buffer_empty_def buffer_is_empty_def)

lemma is_buffer_full_eq: "is_buffer_full = buffer_is_full"
  by (rule ext) (simp add: is_buffer_full_def buffer_is_full_def)

lemma uart_read_eq: "uart_read = buffer_read"
  by (rule ext) (simp add: uart_read_def buffer_read_def is_buffer_empty_eq)

lemma USART_RX_vect_rb_eq: "USART_RX_vect_rb = USART_RX_vect"
  by (rule ext, rule ext) (simp add: USART_RX_vect_rb_def USART_RX_vect_def)

subsection \<open>Index arithmetic\<close>

lemma wrap_diff: "h < n \<Longrightarrow> t < n \<Longrightarrow> (h + n - t) mod n = (if t \<le> h then h - t else h + n - t)" for h t n :: nat
proof (cases "t \<le> h")
  case True
  assume "h < n" "t < n"
  with True have e: "h + n - t = (h - t) + n" and l: "h - t < n" by simp_all
  have "(h + n - t) mod n = (h - t) mod n" unfolding e by simp
  then show ?thesis using True l by simp
next
  case False
  assume "h < n" "t < n"
  with False have "h + n - t < n" by simp
  then show ?thesis using False by simp
qed

lemma wrap_succ: "h < n \<Longrightarrow> Suc h mod n = (if Suc h = n then 0 else Suc h)" for h n :: nat
  by (simp add: mod_Suc)

lemma wrap_add: "t < n \<Longrightarrow> i < n \<Longrightarrow> (t + i) mod n = (if t + i < n then t + i else t + i - n)" for t i n :: nat
  by (simp add: mod_if)

lemma wrap_empty: "h < n \<Longrightarrow> t < n \<Longrightarrow> (h + n - t) mod n = 0 \<longleftrightarrow> h = t" for h t n :: nat
  by (simp add: wrap_diff)

lemma wrap_full: "h < n \<Longrightarrow> t < n \<Longrightarrow> Suc h mod n = t \<longleftrightarrow> (h + n - t) mod n = n - 1" for h t n :: nat
  by (simp add: wrap_diff wrap_succ) arith

lemma wrap_push:
  assumes "(h::nat) < n" "(t::nat) < n" "Suc h mod n \<noteq> t"
  shows "(Suc h mod n + n - t) mod n = Suc ((h + n - t) mod n)"
proof -
  have "Suc h mod n < n" using assms(1) by simp
  then have "(Suc h mod n + n - t) mod n = (if t \<le> Suc h mod n then Suc h mod n - t else Suc h mod n + n - t)"
    using assms(2) by (rule wrap_diff)
  then show ?thesis
    using assms by (simp add: wrap_diff wrap_succ split: if_splits)
qed

lemma wrap_last: "h < n \<Longrightarrow> t < n \<Longrightarrow> (t + (h + n - t) mod n) mod n = h" for h t n :: nat
  by (simp add: wrap_diff mod_if)

lemma wrap_inner:
  assumes "(h::nat) < n" "(t::nat) < n" "i < (h + n - t) mod n"
  shows "(t + i) mod n \<noteq> h"
proof -
  have "(h + n - t) mod n < n" using assms(1) by simp
  with assms(3) have "i < n" by (rule less_trans)
  then have "(t + i) mod n = (if t + i < n then t + i else t + i - n)"
    using assms(2) by (simp add: wrap_add)
  then show ?thesis
    using assms by (simp add: wrap_diff split: if_splits)
qed

lemma wrap_pop:
  assumes "(h::nat) < n" "(t::nat) < n" "0 < (h + n - t) mod n"
  shows "(h + n - t) mod n = Suc ((h + n - Suc t mod n) mod n)"
proof -
  have "Suc t mod n < n" using assms(2) by simp
  with assms(1) have "(h + n - Suc t mod n) mod n = (if Suc t mod n \<le> h then h - Suc t mod n else h + n - Suc t mod n)"
    by (rule wrap_diff)
  then show ?thesis
    using assms by (simp add: wrap_diff wrap_succ split: if_splits)
qed


lemma unat_idx [simp]: "unat (of_nat (n mod BUFFER_SIZE) :: 8 word) = n mod BUFFER_SIZE"
proof -
  have "n mod 64 < 64" by simp
  then have "n mod 64 < (256::nat)" by linarith
  then show ?thesis by (simp add: unat_of_nat BUFFER_SIZE_def)
qed

lemma idx_eq_iff: "(of_nat (n mod BUFFER_SIZE) :: 8 word) = t \<longleftrightarrow> n mod BUFFER_SIZE = unat t"
  using unat_idx[of n] by (auto simp del: unat_idx)

lemma ring_wf_init: "ring_wf ring_init"
  by (simp add: ring_wf_def ring_init_def BUFFER_SIZE_def)

lemma ring_wf_push: "ring_wf s \<Longrightarrow> ring_wf (USART_RX_vect b s)"
  by (simp add: ring_wf_def USART_RX_vect_def Let_def)

lemma ring_wf_read: "ring_wf s \<Longrightarrow> ring_wf (snd (buffer_read s))"
  by (simp add: ring_wf_def buffer_read_def)

lemma empty_iff_count: "ring_wf s \<Longrightarrow> buffer_is_empty s \<noteq> 0 \<longleftrightarrow> ring_count s = 0"
proof -
  assume "ring_wf s"
  then have b: "unat (head s) < BUFFER_SIZE" "unat (tail s) < BUFFER_SIZE"
    by (simp_all add: ring_wf_def)
  have "head s = tail s \<longleftrightarrow> unat (head s) = unat (tail s)"
    by (rule word_unat_eq_iff)
  also have "\<dots> \<longleftrightarrow> ring_count s = 0"
    unfolding ring_count_def using wrap_empty[OF b] by simp
  finally show ?thesis
    by (simp add: buffer_is_empty_def)
qed

lemma full_iff_count: "ring_wf s \<Longrightarrow> buffer_is_full s \<noteq> 0 \<longleftrightarrow> ring_count s = BUFFER_SIZE - 1"
proof -
  assume "ring_wf s"
  then have b: "unat (head s) < BUFFER_SIZE" "unat (tail s) < BUFFER_SIZE"
    by (simp_all add: ring_wf_def)
  show ?thesis
    unfolding ring_count_def buffer_is_full_def using wrap_full[OF b] by simp
qed

lemma length_ring_contents [simp]: "length (ring_contents s) = ring_count s"
  by (simp add: ring_contents_def)

lemma push_not_full:
  assumes "buffer_is_full s = 0"
  shows "USART_RX_vect b s = s\<lparr>rx_buffer := (rx_buffer s)[unat (head s) := b],
      head := of_nat ((unat (head s) + 1) mod BUFFER_SIZE)\<rparr>"
proof -
  from assms have nf: "(unat (head s) + 1) mod BUFFER_SIZE \<noteq> unat (tail s)"
    by (simp add: buffer_is_full_def split: if_splits)
  then have "(of_nat ((unat (head s) + 1) mod BUFFER_SIZE) :: 8 word) \<noteq> tail s"
    by (simp only: idx_eq_iff not_False_eq_True)
  then show ?thesis by (simp add: USART_RX_vect_def Let_def)
qed

lemma push_full:
  assumes "buffer_is_full s \<noteq> 0"
  shows "USART_RX_vect b s = s"
proof -
  from assms have "(unat (head s) + 1) mod BUFFER_SIZE = unat (tail s)"
    by (simp add: buffer_is_full_def split: if_splits)
  then have "(of_nat ((unat (head s) + 1) mod BUFFER_SIZE) :: 8 word) = tail s"
    unfolding idx_eq_iff .
  then show ?thesis by (simp add: USART_RX_vect_def Let_def)
qed

lemma push_count:
  assumes "ring_wf s" "buffer_is_full s = 0"
  shows "ring_count (USART_RX_vect b s) = Suc (ring_count s)"
proof -
  from assms(1) have b: "unat (head s) < BUFFER_SIZE" "unat (tail s) < BUFFER_SIZE"
    by (simp_all add: ring_wf_def)
  from assms(2) have nf: "Suc (unat (head s)) mod BUFFER_SIZE \<noteq> unat (tail s)"
    by (simp add: buffer_is_full_def split: if_splits)
  show ?thesis
    using wrap_push[OF b nf] by (simp add: push_not_full[OF assms(2)] ring_count_def)
qed

lemma push_contents:
  assumes "ring_wf s" "buffer_is_full s = 0"
  shows "ring_contents (USART_RX_vect b s) = ring_contents s @ [b]"
proof -
  from assms(1) have b: "unat (head s) < BUFFER_SIZE" "unat (tail s) < BUFFER_SIZE"
    and len: "length (rx_buffer s) = BUFFER_SIZE"
    by (simp_all add: ring_wf_def)
  note upd = push_not_full[OF assms(2), of b]
  have cnt: "ring_count (USART_RX_vect b s) = Suc (ring_count s)"
    by (rule push_count[OF assms])
  have tl: "tail (USART_RX_vect b s) = tail s" and
       buf: "rx_buffer (USART_RX_vect b s) = (rx_buffer s)[unat (head s) := b]"
    by (simp_all add: upd)
  have last: "(unat (tail s) + ring_count s) mod BUFFER_SIZE = unat (head s)"
    unfolding ring_count_def by (rule wrap_last[OF b])
  have old: "unat (head s) \<noteq> (unat (tail s) + i) mod BUFFER_SIZE" if "i < ring_count s" for i
    using wrap_inner[OF b, of i] that unfolding ring_count_def by simp
  have "ring_contents (USART_RX_vect b s) =
      map (\<lambda>i. (rx_buffer s)[unat (head s) := b] ! ((unat (tail s) + i) mod BUFFER_SIZE)) [0..<Suc (ring_count s)]"
    by (simp add: ring_contents_def cnt tl buf)
  also have "\<dots> = map (\<lambda>i. rx_buffer s ! ((unat (tail s) + i) mod BUFFER_SIZE)) [0..<ring_count s] @ [b]"
    using old last b len by (simp add: nth_list_update)
  finally show ?thesis by (simp add: ring_contents_def)
qed

lemma read_nonempty:
  assumes "ring_wf s" "buffer_is_empty s = 0"
  shows "fst (buffer_read s) = hd (ring_contents s)"
    and "ring_contents (snd (buffer_read s)) = tl (ring_contents s)"
    and "ring_contents s \<noteq> []"
proof -
  from assms(1) have b: "unat (head s) < BUFFER_SIZE" "unat (tail s) < BUFFER_SIZE"
    by (simp_all add: ring_wf_def)
  from assms have pos: "0 < ring_count s"
    using empty_iff_count[of s] by simp
  then show ne: "ring_contents s \<noteq> []"
    by (metis length_ring_contents length_greater_0_conv)
  have rd: "buffer_read s = (rx_buffer s ! unat (tail s),
      s\<lparr>tail := of_nat ((unat (tail s) + 1) mod BUFFER_SIZE)\<rparr>)"
    using assms(2) by (simp add: buffer_read_def)
  have "hd (ring_contents s) = ring_contents s ! 0"
    using ne by (simp add: hd_conv_nth)
  also have "\<dots> = rx_buffer s ! unat (tail s)"
    using pos b by (simp add: ring_contents_def)
  finally show "fst (buffer_read s) = hd (ring_contents s)"
    by (simp add: rd)
  let ?s' = "snd (buffer_read s)"
  have cnt: "ring_count s = Suc (ring_count ?s')"
    using wrap_pop[OF b] pos by (simp add: rd ring_count_def)
  have idx: "(Suc (unat (tail s)) mod BUFFER_SIZE + i) mod BUFFER_SIZE = Suc (unat (tail s) + i) mod BUFFER_SIZE" for i
    by (simp add: mod_add_left_eq)
  have "ring_contents ?s' =
      map (\<lambda>i. rx_buffer s ! ((unat (tail s) + Suc i) mod BUFFER_SIZE)) [0..<ring_count ?s']"
    by (simp add: ring_contents_def rd idx)
  also have "\<dots> = tl (map (\<lambda>i. rx_buffer s ! ((unat (tail s) + i) mod BUFFER_SIZE)) [0..<Suc (ring_count ?s')])"
    by (simp add: map_Suc_upt[symmetric] upt_conv_Cons del: upt_Suc)
  also have "\<dots> = tl (ring_contents s)"
    by (simp add: ring_contents_def cnt del: upt_Suc)
  finally show "ring_contents ?s' = tl (ring_contents s)" .
qed

subsection \<open>The ring is a first-in first-out queue\<close>


lemma ring_run_fifo:
  "ring_wf s \<Longrightarrow> ring_count s + length (pushed ops) < BUFFER_SIZE \<Longrightarrow>
   fst (ring_run ops s) @ ring_contents (snd (ring_run ops s)) = ring_contents s @ pushed ops
   \<and> ring_wf (snd (ring_run ops s))"
proof (induction ops s rule: ring_run.induct)
  case (1 s)
  then show ?case by simp
next
  case (2 b ops s)
  from 2(3) have "ring_count s \<noteq> BUFFER_SIZE - 1" by simp
  with 2(2) have nf: "buffer_is_full s = 0" using full_iff_count[of s] by simp
  have "ring_count (USART_RX_vect b s) + length (pushed ops) < BUFFER_SIZE"
    using 2(3) by (simp add: push_count[OF 2(2) nf])
  with 2(1)[OF ring_wf_push[OF 2(2)]] show ?case
    by (simp add: push_contents[OF 2(2) nf])
next
  case (3 ops s)
  obtain c s' where rd: "buffer_read s = (c, s')" by (cases "buffer_read s")
  have wf': "ring_wf s'" using ring_wf_read[OF 3(2)] rd by simp
  show ?case
  proof (cases "buffer_is_empty s = 0")
    case True
    note ne = read_nonempty[OF 3(2) True]
    from ne rd have c: "c = hd (ring_contents s)" and s': "ring_contents s' = tl (ring_contents s)"
      by simp_all
    have "ring_count s' \<le> ring_count s"
      using s' by (metis length_ring_contents length_tl diff_le_self)
    with 3(3) have bound: "ring_count s' + length (pushed ops) < BUFFER_SIZE" by simp
    from 3(1)[OF rd[symmetric] refl wf' bound]
    have "fst (ring_run ops s') @ ring_contents (snd (ring_run ops s')) = ring_contents s' @ pushed ops"
      and "ring_wf (snd (ring_run ops s'))" by simp_all
    then show ?thesis
      using True rd c s' ne(3) by (simp add: split_beta)
  next
    case False
    then have same: "s' = s" using rd by (simp add: buffer_read_def)
    from False 3(2) have "ring_contents s = []"
      using empty_iff_count[of s] by (metis length_ring_contents length_0_conv)
    moreover from 3(3) have "ring_count s' + length (pushed ops) < BUFFER_SIZE"
      by (simp add: same)
    note 3(1)[OF rd[symmetric] refl wf' this]
    ultimately show ?thesis using False rd same by (simp add: split_beta)
  qed
qed

lemma uart_echo_pop:
  "uart_echo s = (if buffer_is_empty s = 0 then fst (ring_run [Pop] s) else [], snd (ring_run [Pop] s))"
  by (simp add: uart_echo_def uart_read_eq is_buffer_empty_eq split_beta buffer_read_def)

lemma ring_run_refines:
  "ring_wf s \<Longrightarrow>
   fst (ring_run ops s) = fst (fifo_run ops (ring_contents s)) \<and>
   ring_contents (snd (ring_run ops s)) = snd (fifo_run ops (ring_contents s)) \<and>
   ring_wf (snd (ring_run ops s))"
proof (induction ops s rule: ring_run.induct)
  case (1 s)
  then show ?case by simp
next
  case (2 b ops s)
  note wf' = ring_wf_push[OF 2(2), of b]
  show ?case
  proof (cases "buffer_is_full s = 0")
    case True
    then have "ring_count s \<noteq> BUFFER_SIZE - 1" using full_iff_count[OF 2(2)] by simp
    moreover have "ring_count s < BUFFER_SIZE" by (simp add: ring_count_def BUFFER_SIZE_def)
    ultimately have room: "length (ring_contents s) < BUFFER_SIZE - 1" by simp
    from 2(1)[OF wf'] room show ?thesis
      by (simp add: push_contents[OF 2(2) True])
  next
    case False
    then have "length (ring_contents s) = BUFFER_SIZE - 1" using full_iff_count[OF 2(2)] by simp
    with 2(1)[OF wf'] show ?thesis
      by (simp add: push_full[OF False])
  qed
next
  case (3 ops s)
  obtain c s' where rd: "buffer_read s = (c, s')" by (cases "buffer_read s")
  have wf': "ring_wf s'" using ring_wf_read[OF 3(2)] rd by simp
  note ih = 3(1)[OF rd[symmetric] refl wf']
  show ?case
  proof (cases "buffer_is_empty s = 0")
    case True
    note ne = read_nonempty[OF 3(2) True]
    from ne rd have "ring_contents s = c # ring_contents s'"
      by (cases "ring_contents s") simp_all
    with ih True rd show ?thesis by (simp add: split_beta)
  next
    case False
    then have same: "s' = s" using rd by (simp add: buffer_read_def)
    from False 3(2) have "ring_contents s = []"
      using empty_iff_count[of s] by (metis length_ring_contents length_0_conv)
    with ih False rd same show ?thesis by (simp add: split_beta)
  qed
qed

lemma ring_count_init: "ring_count ring_init = 0"
  by (simp add: ring_count_def ring_init_def)

lemma ring_contents_init: "ring_contents ring_init = []"
  by (simp add: ring_contents_def ring_count_init)

text \<open>
  Claim C5. Take any ring with its indices in range, wherever \<open>head\<close> and \<open>tail\<close>
  stand, and any sequence of receive interrupts and reads. The ring does what the
  first-in first-out queue of the specification with \<open>BUFFER_SIZE - 1\<close> places does:
  the bytes read are the bytes that queue gives, and the unread bytes are its
  contents. As long as the bytes waiting at the start and the bytes pushed together
  fit into the \<open>BUFFER_SIZE - 1\<close> places, the bytes read, followed by the bytes still
  waiting, are the bytes that waited at the start followed by the bytes pushed, in the
  order they were pushed: nothing is lost, duplicated or reordered. This is so in
  particular for a run from the empty ring of a fresh boot with fewer than
  \<open>BUFFER_SIZE - 1\<close> pushes. After every prefix of a run, \<^verbatim>\<open>buffer_is_empty\<close> answers
  true exactly when \<open>head = tail\<close>, and that is exactly when the queue is empty;
  \<^verbatim>\<open>buffer_is_full\<close> answers true exactly when \<open>(head + 1) mod BUFFER_SIZE = tail\<close>, and
  that is exactly when the queue holds \<open>BUFFER_SIZE - 1\<close> bytes. The predicates of the
  second variant give the same answers. (A read on the empty ring returns the
  sentinel of claim C9, which is not a byte read, and changes nothing.)
\<close>

theorem ring_fifo:
  assumes "ring_wf s"
  shows "fst (ring_run ops s) = fst (fifo_run ops (ring_contents s)) \<and>
    ring_contents (snd (ring_run ops s)) = snd (fifo_run ops (ring_contents s)) \<and>
    (ring_count s + length (pushed ops) < BUFFER_SIZE \<longrightarrow>
       fst (ring_run ops s) @ ring_contents (snd (ring_run ops s)) = ring_contents s @ pushed ops) \<and>
    (length (pushed ops) < BUFFER_SIZE - 1 \<longrightarrow>
       fst (ring_run ops ring_init) @ ring_contents (snd (ring_run ops ring_init)) = pushed ops) \<and>
    (\<forall>n\<le>length ops. let t = snd (ring_run (take n ops) s) in
       ring_wf t \<and>
       (buffer_is_empty t \<noteq> 0 \<longleftrightarrow> head t = tail t) \<and>
       (buffer_is_empty t \<noteq> 0 \<longleftrightarrow> snd (fifo_run (take n ops) (ring_contents s)) = []) \<and>
       (buffer_is_full t \<noteq> 0 \<longleftrightarrow> (unat (head t) + 1) mod BUFFER_SIZE = unat (tail t)) \<and>
       (buffer_is_full t \<noteq> 0 \<longleftrightarrow>
          length (snd (fifo_run (take n ops) (ring_contents s))) = BUFFER_SIZE - 1) \<and>
       is_buffer_empty t = buffer_is_empty t \<and> is_buffer_full t = buffer_is_full t)"
proof (intro conjI allI impI)
  note r = ring_run_refines[OF assms, of ops]
  show "fst (ring_run ops s) = fst (fifo_run ops (ring_contents s))" using r by simp
  show "ring_contents (snd (ring_run ops s)) = snd (fifo_run ops (ring_contents s))" using r by simp
next
  assume "ring_count s + length (pushed ops) < BUFFER_SIZE"
  from ring_run_fifo[OF assms this]
  show "fst (ring_run ops s) @ ring_contents (snd (ring_run ops s)) = ring_contents s @ pushed ops"
    by simp
next
  assume "length (pushed ops) < BUFFER_SIZE - 1"
  then have "ring_count ring_init + length (pushed ops) < BUFFER_SIZE"
    by (simp add: ring_count_init)
  from ring_run_fifo[OF ring_wf_init this]
  show "fst (ring_run ops ring_init) @ ring_contents (snd (ring_run ops ring_init)) = pushed ops"
    by (simp add: ring_contents_init)
next
  fix n
  let ?t = "snd (ring_run (take n ops) s)"
  let ?q = "snd (fifo_run (take n ops) (ring_contents s))"
  note r = ring_run_refines[OF assms, of "take n ops"]
  from r have wf: "ring_wf ?t" by simp
  from r have q: "ring_contents ?t = ?q" by simp
  have e: "buffer_is_empty ?t \<noteq> 0 \<longleftrightarrow> ?q = []"
    using empty_iff_count[OF wf] q by (metis length_ring_contents length_0_conv)
  have f: "buffer_is_full ?t \<noteq> 0 \<longleftrightarrow> length ?q = BUFFER_SIZE - 1"
    using full_iff_count[OF wf] q by (metis length_ring_contents)
  show "let t = ?t in
       ring_wf t \<and>
       (buffer_is_empty t \<noteq> 0 \<longleftrightarrow> head t = tail t) \<and>
       (buffer_is_empty t \<noteq> 0 \<longleftrightarrow> ?q = []) \<and>
       (buffer_is_full t \<noteq> 0 \<longleftrightarrow> (unat (head t) + 1) mod BUFFER_SIZE = unat (tail t)) \<and>
       (buffer_is_full t \<noteq> 0 \<longleftrightarrow> length ?q = BUFFER_SIZE - 1) \<and>
       is_buffer_empty t = buffer_is_empty t \<and> is_buffer_full t = buffer_is_full t"
    unfolding Let_def
  proof (intro conjI)
    show "ring_wf ?t" by (rule wf)
    show "buffer_is_empty ?t \<noteq> 0 \<longleftrightarrow> head ?t = tail ?t"
      by (simp add: buffer_is_empty_def)
    show "buffer_is_full ?t \<noteq> 0 \<longleftrightarrow> (unat (head ?t) + 1) mod BUFFER_SIZE = unat (tail ?t)"
      by (simp add: buffer_is_full_def)
    show "buffer_is_empty ?t \<noteq> 0 \<longleftrightarrow> ?q = []" by (rule e)
    show "buffer_is_full ?t \<noteq> 0 \<longleftrightarrow> length ?q = BUFFER_SIZE - 1" by (rule f)
    show "is_buffer_empty ?t = buffer_is_empty ?t" by (simp add: is_buffer_empty_eq)
    show "is_buffer_full ?t = buffer_is_full ?t" by (simp add: is_buffer_full_eq)
  qed
qed

theorem ring_fifo_witness:
  "ring_wf ring_at_60 \<and>
   fst (ring_run (fill_ops @ [Push 99, Pop]) ring_at_60) = [1] \<and>
   ring_contents (snd (ring_run (fill_ops @ [Push 99, Pop]) ring_at_60)) = map of_nat [2..<64] \<and>
   buffer_is_full (snd (ring_run (take 63 (fill_ops @ [Push 99, Pop])) ring_at_60)) \<noteq> 0 \<and>
   buffer_is_full (snd (ring_run (take 62 (fill_ops @ [Push 99, Pop])) ring_at_60)) = 0 \<and>
   buffer_is_empty (snd (ring_run (take 0 (fill_ops @ [Push 99, Pop])) ring_at_60)) \<noteq> 0 \<and>
   fst (ring_run [Push 65, Push 66, Pop, Push 67, Pop] ring_init) @
     ring_contents (snd (ring_run [Push 65, Push 66, Pop, Push 67, Pop] ring_init)) = [65, 66, 67]"
proof -
  let ?ops = "fill_ops @ [Push 99, Pop]"
  have wf: "ring_wf ring_at_60" by (simp add: ring_wf_def ring_at_60_def BUFFER_SIZE_def)
  have c0: "ring_contents ring_at_60 = []"
    by (simp add: ring_contents_def ring_count_def ring_at_60_def)
  have run: "fifo_run ?ops [] = ([1], map of_nat [2..<64])" by code_simp
  have l63: "length (snd (fifo_run (take 63 ?ops) [])) = BUFFER_SIZE - 1" by code_simp
  have l62: "length (snd (fifo_run (take 62 ?ops) [])) \<noteq> BUFFER_SIZE - 1" by code_simp
  have l0: "snd (fifo_run (take 0 ?ops) []) = []" by simp
  note t = ring_fifo[OF wf, of ?ops]
  note out = t[THEN conjunct1]
  note rest = t[THEN conjunct2, THEN conjunct1]
  note steps = t[THEN conjunct2, THEN conjunct2, THEN conjunct2, THEN conjunct2, rule_format]
  have n63: "63 \<le> length ?ops" and n62: "62 \<le> length ?ops" and n0: "0 \<le> length ?ops"
    by (simp_all add: fill_ops_def)
  have 1: "fst (ring_run ?ops ring_at_60) = [1]"
    using out by (simp only: c0 run fst_conv)
  have 2: "ring_contents (snd (ring_run ?ops ring_at_60)) = map of_nat [2..<64]"
    using rest by (simp only: c0 run snd_conv)
  have 3: "buffer_is_full (snd (ring_run (take 63 ?ops) ring_at_60)) \<noteq> 0"
    using steps[OF n63] l63 by (simp only: Let_def c0) blast
  have 4: "buffer_is_full (snd (ring_run (take 62 ?ops) ring_at_60)) = 0"
    using steps[OF n62] l62 by (simp only: Let_def c0) blast
  have 5: "buffer_is_empty (snd (ring_run (take 0 ?ops) ring_at_60)) \<noteq> 0"
    using steps[OF n0] l0 by (simp only: Let_def c0) blast
  have h: "length (pushed [Push 65, Push 66, Pop, Push 67, Pop]) < BUFFER_SIZE - 1"
    by (simp add: BUFFER_SIZE_def)
  from ring_fifo[OF wf, of "[Push 65, Push 66, Pop, Push 67, Pop]",
      THEN conjunct2, THEN conjunct2, THEN conjunct2, THEN conjunct1, rule_format, OF h]
  have 6: "fst (ring_run [Push 65, Push 66, Pop, Push 67, Pop] ring_init) @
     ring_contents (snd (ring_run [Push 65, Push 66, Pop, Push 67, Pop] ring_init)) = [65, 66, 67]"
    by simp
  show ?thesis
    by (intro conjI) (rule wf, rule 1, rule 2, rule 3, rule 4, rule 5, rule 6)
qed

text \<open>
  Claim C4. When the ring is full, the receive interrupt returns without changing
  anything: the new byte is dropped, no error value exists and the handler does not
  wait. The ring is still full afterwards, its \<open>BUFFER_SIZE - 1\<close> unread bytes are
  the same, and the next read returns the oldest of them. Both variants behave so.
\<close>

theorem ring_overflow_drop:
  assumes "ring_wf s" and "buffer_is_full s \<noteq> 0"
  shows "USART_RX_vect b s = s \<and> USART_RX_vect_rb b s = s \<and>
    buffer_is_full (USART_RX_vect b s) \<noteq> 0 \<and>
    length (ring_contents s) = BUFFER_SIZE - 1 \<and>
    ring_contents (USART_RX_vect b s) = ring_contents s \<and>
    fst (buffer_read (USART_RX_vect b s)) = hd (ring_contents s) \<and>
    fst (uart_read (USART_RX_vect_rb b s)) = hd (ring_contents s)"
proof -
  have same: "USART_RX_vect b s = s" by (rule push_full[OF assms(2)])
  have cnt: "ring_count s = BUFFER_SIZE - 1" using full_iff_count[OF assms(1)] assms(2) by simp
  then have "ring_count s \<noteq> 0" by (simp add: BUFFER_SIZE_def)
  then have "buffer_is_empty s = 0" using empty_iff_count[OF assms(1)] by simp
  from read_nonempty(1)[OF assms(1) this] same cnt assms(2) show ?thesis
    by (simp add: USART_RX_vect_rb_eq uart_read_eq)
qed


theorem ring_overflow_drop_witness:
  "ring_wf \<lparr>rx_buffer = 9 # replicate 63 7, head = 63, tail = 0\<rparr> \<and>
   buffer_is_full \<lparr>rx_buffer = 9 # replicate 63 7, head = 63, tail = 0\<rparr> \<noteq> 0 \<and>
   USART_RX_vect 5 \<lparr>rx_buffer = 9 # replicate 63 7, head = 63, tail = 0\<rparr>
     = \<lparr>rx_buffer = 9 # replicate 63 7, head = 63, tail = 0\<rparr> \<and>
   fst (buffer_read (USART_RX_vect 5 \<lparr>rx_buffer = 9 # replicate 63 7, head = 63, tail = 0\<rparr>)) = 9"
proof -
  let ?s = "\<lparr>rx_buffer = 9 # replicate 63 7, head = 63, tail = 0\<rparr> :: ring"
  have wf: "ring_wf ?s" by (simp add: ring_wf_def BUFFER_SIZE_def)
  have full: "buffer_is_full ?s \<noteq> 0" by (simp add: buffer_is_full_def BUFFER_SIZE_def)
  have oldest: "hd (ring_contents ?s) = 9"
    by (simp add: ring_contents_def ring_count_def BUFFER_SIZE_def upt_conv_Cons del: upt_Suc)
  note drop = ring_overflow_drop[OF wf full, of 5]
  from drop have same: "USART_RX_vect 5 ?s = ?s"
    by (rule conjunct1)
  from drop have "fst (buffer_read (USART_RX_vect 5 ?s)) = hd (ring_contents ?s)"
    by blast
  then have rd: "fst (buffer_read (USART_RX_vect 5 ?s)) = 9"
    by (simp only: oldest)
  show ?thesis
    by (intro conjI) (rule wf, rule full, rule same, rule rd)
qed

text \<open>
  Claim C9. A read from an empty ring returns the \<^verbatim>\<open>char\<close> made from \<open>-1\<close> and leaves
  the ring, so \<open>head\<close> and \<open>tail\<close>, as it was. Had the byte \<open>0xFF\<close> been received
  into that ring first, the ring would not be empty and the read would return the very
  same \<^verbatim>\<open>char\<close>: the returned value alone does not tell the two situations apart.
\<close>

theorem read_empty_sentinel:
  assumes "ring_wf s" and "buffer_is_empty s \<noteq> 0"
  shows "buffer_read s = (- 1, s) \<and> uart_read s = (- 1, s) \<and>
    head (snd (buffer_read s)) = head s \<and> tail (snd (buffer_read s)) = tail s \<and>
    buffer_is_empty (USART_RX_vect 255 s) = 0 \<and>
    fst (buffer_read (USART_RX_vect 255 s)) = fst (buffer_read s)"
proof -
  have rd: "buffer_read s = (- 1, s)" using assms(2) by (simp add: buffer_read_def)
  have "ring_count s = 0" using empty_iff_count[OF assms(1)] assms(2) by simp
  then have "ring_count s \<noteq> BUFFER_SIZE - 1" by (simp add: BUFFER_SIZE_def)
  then have nf: "buffer_is_full s = 0" using full_iff_count[OF assms(1)] by simp
  have c: "ring_contents (USART_RX_vect 255 s) = ring_contents s @ [255]"
    by (rule push_contents[OF assms(1) nf])
  have wf': "ring_wf (USART_RX_vect 255 s)" by (rule ring_wf_push[OF assms(1)])
  have "ring_count (USART_RX_vect 255 s) \<noteq> 0" using push_count[OF assms(1) nf] by simp
  then have ne: "buffer_is_empty (USART_RX_vect 255 s) = 0" using empty_iff_count[OF wf'] by simp
  have "ring_contents s = []" using \<open>ring_count s = 0\<close> by (metis length_ring_contents length_0_conv)
  with c read_nonempty(1)[OF wf' ne] have "fst (buffer_read (USART_RX_vect 255 s)) = 255" by simp
  with rd ne show ?thesis by (simp add: uart_read_eq)
qed

theorem read_empty_sentinel_witness:
  "ring_wf ring_init \<and> buffer_is_empty ring_init \<noteq> 0 \<and>
   buffer_read ring_init = (255, ring_init) \<and>
   buffer_is_empty (USART_RX_vect 255 ring_init) = 0 \<and>
   fst (buffer_read (USART_RX_vect 255 ring_init)) = 255"
proof -
  have e: "buffer_is_empty ring_init \<noteq> 0" by (simp add: buffer_is_empty_def ring_init_def)
  from read_empty_sentinel[OF ring_wf_init e] ring_wf_init e show ?thesis by simp
qed

section \<open>Properties of the task queue\<close>

subsection \<open>Where an insertion lands\<close>



lemma insert_after_split:
  "insert_after new rest =
     takeWhile (\<lambda>x. priority (snd x) \<le> priority (snd new)) rest @ new #
     dropWhile (\<lambda>x. priority (snd x) \<le> priority (snd new)) rest"
  by (induction rest) simp_all

lemma priority_new_task [simp]: "priority (new_task msg d pr) = pr"
  by (simp add: new_task_def)

lemma add_log_null [simp]: "add_log 0 msg d pr q = q"
  by (simp add: add_log_def)

lemma add_log_split:
  assumes "new_node \<noteq> 0"
  shows "add_log new_node msg d pr q =
     takeWhile (\<lambda>x. priority (snd x) \<le> pr) q @ (new_node, new_task msg d pr) #
     dropWhile (\<lambda>x. priority (snd x) \<le> pr) q"
proof (cases q)
  case Nil
  then show ?thesis using assms by (simp add: add_log_def)
next
  case (Cons first rest)
  then show ?thesis using assms
    by (auto simp add: add_log_def Let_def insert_after_split dest: leD)
qed

lemma dropWhile_above:
  "sorted (map (\<lambda>x. priority (snd x)) q) \<Longrightarrow>
   x \<in> set (dropWhile (\<lambda>y. priority (snd y) \<le> c) q) \<Longrightarrow> c < priority (snd x)"
proof (induction q)
  case Nil
  then show ?case by simp
next
  case (Cons a q)
  show ?case
  proof (cases "priority (snd a) \<le> c")
    case True
    with Cons show ?thesis by simp
  next
    case False
    then have "c < priority (snd a)" by simp
    moreover from Cons.prems(1) have "\<forall>y\<in>set q. priority (snd a) \<le> priority (snd y)" by simp
    ultimately show ?thesis using Cons.prems(2) False by auto
  qed
qed

lemma sorted_split:
  assumes "sorted (map (\<lambda>x. priority (snd x)) q)"
  shows "takeWhile (\<lambda>y. priority (snd y) \<le> c) q = filter (\<lambda>y. priority (snd y) \<le> c) q"
    and "dropWhile (\<lambda>y. priority (snd y) \<le> c) q = filter (\<lambda>y. c < priority (snd y)) q"
proof -
  let ?P = "\<lambda>y. priority (snd y) \<le> c"
  have q: "q = takeWhile ?P q @ dropWhile ?P q" by simp
  have t: "filter ?P (takeWhile ?P q) = takeWhile ?P q"
    by (rule filter_True) (auto dest: set_takeWhileD)
  have d: "filter ?P (dropWhile ?P q) = []"
    using dropWhile_above[OF assms, of _ c] by (auto simp: filter_empty_conv dest: leD)
  have "filter ?P q = filter ?P (takeWhile ?P q) @ filter ?P (dropWhile ?P q)"
    by (subst q) (simp only: filter_append)
  then show "takeWhile ?P q = filter ?P q" by (simp add: t d)
  let ?Q = "\<lambda>y. c < priority (snd y)"
  have t': "filter ?Q (takeWhile ?P q) = []"
    by (auto simp: filter_empty_conv dest: set_takeWhileD)
  have d': "filter ?Q (dropWhile ?P q) = dropWhile ?P q"
    by (rule filter_True) (use dropWhile_above[OF assms, of _ c] in auto)
  have "filter ?Q q = filter ?Q (takeWhile ?P q) @ filter ?Q (dropWhile ?P q)"
    by (subst q) (simp only: filter_append)
  then show "dropWhile ?P q = filter ?Q q" by (simp add: t' d')
qed

lemma add_log_sorted:
  assumes "sorted (map (\<lambda>x. priority (snd x)) q)"
  shows "sorted (map (\<lambda>x. priority (snd x)) (add_log new_node msg d pr q))"
proof (cases "new_node = 0")
  case True
  with assms show ?thesis by simp
next
  case False
  let ?P = "\<lambda>y. priority (snd y) \<le> pr"
  have q: "map (\<lambda>x. priority (snd x)) q =
      map (\<lambda>x. priority (snd x)) (takeWhile ?P q) @ map (\<lambda>x. priority (snd x)) (dropWhile ?P q)"
    by (simp flip: map_append)
  from assms have "sorted (map (\<lambda>x. priority (snd x)) (takeWhile ?P q) @ map (\<lambda>x. priority (snd x)) (dropWhile ?P q))"
    by (simp only: q[symmetric])
  then have s: "sorted (map (\<lambda>x. priority (snd x)) (takeWhile ?P q))"
      "sorted (map (\<lambda>x. priority (snd x)) (dropWhile ?P q))"
      "\<forall>x\<in>set (takeWhile ?P q). \<forall>y\<in>set (dropWhile ?P q). priority (snd x) \<le> priority (snd y)"
    by (auto simp: sorted_append)
  have lo: "\<forall>x\<in>set (takeWhile ?P q). priority (snd x) \<le> pr"
    by (auto dest: set_takeWhileD)
  have hi: "\<forall>y\<in>set (dropWhile ?P q). pr \<le> priority (snd y)"
    using dropWhile_above[OF assms, of _ pr] by (auto intro: less_imp_le)
  show ?thesis
    using s lo hi by (simp add: add_log_split[OF False] sorted_append)
qed

lemma add_log_filter:
  assumes "sorted (map (\<lambda>x. priority (snd x)) q)"
  shows "filter (\<lambda>x. priority (snd x) = c) (add_log new_node msg d pr q) =
     filter (\<lambda>x. priority (snd x) = c) q @
     (if new_node \<noteq> 0 \<and> pr = c then [(new_node, new_task msg d pr)] else [])"
proof (cases "new_node = 0")
  case True
  then show ?thesis by simp
next
  case False
  let ?P = "\<lambda>y. priority (snd y) \<le> pr"
  let ?C = "\<lambda>x. priority (snd x) = c"
  have q: "filter ?C q = filter ?C (takeWhile ?P q) @ filter ?C (dropWhile ?P q)"
    by (simp flip: filter_append)
  show ?thesis
  proof (cases "pr = c")
    case True
    have "filter ?C (dropWhile ?P q) = []"
      using dropWhile_above[OF assms, of _ pr] True by (auto simp: filter_empty_conv)
    then show ?thesis using True False q by (simp add: add_log_split[OF False])
  next
    case neq: False
    then show ?thesis using False q by (simp add: add_log_split[OF False])
  qed
qed

lemma add_logs_sorted:
  "sorted (map (\<lambda>x. priority (snd x)) q) \<Longrightarrow> sorted (map (\<lambda>x. priority (snd x)) (add_logs ins q))"
  by (induction ins q rule: add_logs.induct) (simp_all add: add_log_sorted)

lemma add_logs_filter:
  "sorted (map (\<lambda>x. priority (snd x)) q) \<Longrightarrow>
   filter (\<lambda>x. priority (snd x) = c) (add_logs ins q) =
     filter (\<lambda>x. priority (snd x) = c) q @
     map entry_of (filter (\<lambda>r. allocated r \<and> prio_of r = c) ins)"
proof (induction ins q rule: add_logs.induct)
  case (1 q)
  then show ?case by simp
next
  case (2 new_node msg delay_ms pr ins q)
  from 2(1)[OF add_log_sorted[OF 2(2)]] show ?case
    by (simp add: add_log_filter[OF 2(2)] entry_of_def allocated_def prio_of_def)
qed

lemma print_loop_priorities: "map (\<lambda>l. fst (snd l)) (print_loop k q) = map (\<lambda>x. priority (snd x)) q"
  by (induction k q rule: print_loop.induct) simp_all

lemma print_loop_snd:
  "map snd (print_loop k q) = map (\<lambda>x. (priority (snd x), cstr (data (snd x)))) q"
  by (induction k q rule: print_loop.induct) simp_all

subsection \<open>Priority order and first-in first-out within a priority\<close>

text \<open>
  Claim C1. Start from the empty queue of a fresh boot and perform any sequence of
  calls of \<^verbatim>\<open>add_log\<close>, each with its own text, priority, delay and allocation result.
  Then \<^verbatim>\<open>print_log\<close> lists the entries front to back with priorities that never
  decrease, and for every priority value the entries of that priority are exactly the
  successfully allocated requests of that priority, in the order in which they were
  made. Each further insertion lands right behind all entries whose priority is at
  most the new one, and before all entries of greater priority (at the front when the
  queue is empty or the head's priority is greater).
\<close>

theorem add_log_priority_order:
  "sorted (map (\<lambda>l. fst (snd l)) (print_log (add_logs ins []))) \<and>
   map snd (print_log (add_logs ins [])) =
     map (\<lambda>x. (priority (snd x), cstr (data (snd x)))) (add_logs ins []) \<and>
   (\<forall>c. filter (\<lambda>x. priority (snd x) = c) (add_logs ins []) =
        map entry_of (filter (\<lambda>r. allocated r \<and> prio_of r = c) ins)) \<and>
   (\<forall>new_node msg delay_ms prio. new_node \<noteq> 0 \<longrightarrow>
      add_log new_node msg delay_ms prio (add_logs ins []) =
        filter (\<lambda>x. priority (snd x) \<le> prio) (add_logs ins []) @
        (new_node, new_task msg delay_ms prio) #
        filter (\<lambda>x. prio < priority (snd x)) (add_logs ins []))"
proof -
  let ?Q = "add_logs ins []"
  have s: "sorted (map (\<lambda>x. priority (snd x)) ?Q)"
    by (rule add_logs_sorted) simp
  have 1: "sorted (map (\<lambda>l. fst (snd l)) (print_log ?Q))"
    using s by (simp add: print_log_def print_loop_priorities)
  have 2: "map snd (print_log ?Q) = map (\<lambda>x. (priority (snd x), cstr (data (snd x)))) ?Q"
    unfolding print_log_def
    by (rule print_loop_snd)
  have 3: "filter (\<lambda>x. priority (snd x) = c) ?Q =
      map entry_of (filter (\<lambda>r. allocated r \<and> prio_of r = c) ins)" for c
    using add_logs_filter[of "[]" c ins] by simp
  have 4: "add_log new_node msg delay_ms prio ?Q =
        filter (\<lambda>x. priority (snd x) \<le> prio) ?Q @ (new_node, new_task msg delay_ms prio) #
        filter (\<lambda>x. prio < priority (snd x)) ?Q" if "new_node \<noteq> 0" for new_node msg delay_ms prio
    by (simp only: add_log_split[OF that] sorted_split[OF s])
  from 1 2 3 4 show ?thesis by blast
qed

theorem add_log_priority_order_witness:
  "print_log (add_logs [(0x200, str ''PING'', 0, 5), (0x300, str ''PONG'', 0, 1)] []) =
     [(1, 1, str ''PONG''), (2, 5, str ''PING'')] \<and>
   sorted (map (\<lambda>l. fst (snd l))
     (print_log (add_logs [(0x200, str ''PING'', 0, 5), (0x300, str ''PONG'', 0, 1)] [])))"
proof -
  have "print_log (add_logs [(0x200, str ''PING'', 0, 5), (0x300, str ''PONG'', 0, 1)] []) =
     [(1, 1, str ''PONG''), (2, 5, str ''PING'')]"
    by (simp add: print_log_def add_log_def new_task_def strncpy_def cstr_def str_def MAX_CMD_LEN_def)
  with add_log_priority_order[of "[(0x200, str ''PING'', 0, 5), (0x300, str ''PONG'', 0, 1)]"]
  show ?thesis by blast
qed

subsection \<open>One pass treats every entry on its own\<close>

lemma execute_tasks_append:
  "execute_tasks (xs @ ys) =
     (fst (execute_tasks xs) @ fst (execute_tasks ys), snd (execute_tasks xs) @ snd (execute_tasks ys))"
  by (induction xs rule: execute_tasks.induct) (simp_all add: split_beta)

lemma queue_after_append: "queue_after k (xs @ ys) = queue_after k xs @ queue_after k ys"
  by (induction k arbitrary: xs ys) (simp_all add: execute_tasks_append)

lemma tick_output_append: "tick_output j (xs @ ys) = tick_output j xs @ tick_output j ys"
  by (simp add: tick_output_def queue_after_append execute_tasks_append)

lemma queue_after_Nil [simp]: "queue_after k [] = []"
  by (induction k) simp_all

lemma task_msg_delay [simp]: "task_msg (e\<lparr>delay_ticks := d\<rparr>) = task_msg e"
  by (simp add: task_msg_def)

lemma unat_pred: "0 < (N :: 16 word) \<Longrightarrow> unat (N - 1) = unat N - 1"
  by (simp add: unat_minus_one word_neq_0_conv)

lemma queue_after_single:
  "queue_after k [(p, e)] =
     (if k \<le> unat (delay_ticks e) then [(p, e\<lparr>delay_ticks := delay_ticks e - of_nat k\<rparr>)] else [])"
proof (induction k arbitrary: e)
  case 0
  then show ?case by simp
next
  case (Suc k)
  show ?case
  proof (cases "0 < delay_ticks e")
    case True
    then have u: "unat (delay_ticks e - 1) = unat (delay_ticks e) - 1" by (rule unat_pred)
    from True have pos: "0 < unat (delay_ticks e)" by (simp add: unat_gt_0 word_neq_0_conv)
    have "queue_after (Suc k) [(p, e)] = queue_after k [(p, e\<lparr>delay_ticks := delay_ticks e - 1\<rparr>)]"
      using True by simp
    also have "\<dots> = (if k \<le> unat (delay_ticks e) - 1
        then [(p, e\<lparr>delay_ticks := delay_ticks e - 1 - of_nat k\<rparr>)] else [])"
      by (simp add: Suc.IH u)
    also have "\<dots> = (if Suc k \<le> unat (delay_ticks e)
        then [(p, e\<lparr>delay_ticks := delay_ticks e - of_nat (Suc k)\<rparr>)] else [])"
      using pos by (auto simp: algebra_simps)
    finally show ?thesis .
  next
    case False
    then have z: "delay_ticks e = 0" by (simp add: word_gt_0)
    then show ?thesis by simp
  qed
qed

lemma tick_output_single:
  "tick_output j [(p, e)] = (if j = unat (delay_ticks e) then task_msg e else [])"
proof (cases "j \<le> unat (delay_ticks e)")
  case True
  have "delay_ticks e - of_nat j = 0 \<longleftrightarrow> j = unat (delay_ticks e)"
  proof
    assume "delay_ticks e - of_nat j = 0"
    then have "delay_ticks e = of_nat j" by simp
    moreover have "j < 2 ^ LENGTH(16)"
      using True unsigned_less[of "delay_ticks e"] by (rule le_less_trans)
    ultimately show "j = unat (delay_ticks e)" by (simp add: unat_of_nat)
  next
    assume "j = unat (delay_ticks e)"
    then show "delay_ticks e - of_nat j = 0" by simp
  qed
  then show ?thesis using True
    by (auto simp add: tick_output_def queue_after_single word_neq_0_conv[symmetric])
next
  case False
  then show ?thesis by (simp add: tick_output_def queue_after_single)
qed

lemma delay_ticks_new_task: "unat (delay_ticks (new_task msg delay_ms prio)) = unat delay_ms div 10"
  by (simp add: new_task_def TICK_MS_def unat_div)

subsection \<open>When a delayed entry runs\<close>

text \<open>
  Claim C2 says that an entry with \<open>delay_ticks = N\<close> runs on call number \<open>N\<close>
  of \<^verbatim>\<open>execute_tasks\<close>. The code decrements on a call that finds a positive count and
  runs the entry only on a call that finds the count at zero. For the entry
  \<open>("A", priority 3, 20 ms)\<close>, whose count is 2: the first and the second call send
  nothing, after the second call the entry is still queued with count 0, and it is
  the third call that sends \<^verbatim>\<open>Task: A\<close> and removes it.
\<close>

theorem tick_second_call_counterexample:
  "delay_ticks (new_task (str ''A'') 20 3) = 2 \<and>
   tick_output 0 [(0x200, new_task (str ''A'') 20 3)] = [] \<and>
   tick_output 1 [(0x200, new_task (str ''A'') 20 3)] = [] \<and>
   queue_after 2 [(0x200, new_task (str ''A'') 20 3)] =
     [(0x200, (new_task (str ''A'') 20 3)\<lparr>delay_ticks := 0\<rparr>)] \<and>
   tick_output 2 [(0x200, new_task (str ''A'') 20 3)] = str ''Task: A'' @ [10] \<and>
   queue_after 3 [(0x200, new_task (str ''A'') 20 3)] = []"
  by code_simp

text \<open>
  Claim C2, amended. Let an entry \<open>e\<close> stand anywhere in the queue, between \<open>pre\<close>
  and \<open>post\<close>, with \<open>delay_ticks e = N\<close>. During the first \<open>N\<close> calls of
  \<^verbatim>\<open>execute_tasks\<close> the entry stays where it is, its count falling by one per call, and
  contributes nothing to what is sent; call number \<open>N + 1\<close> sends its text exactly
  once, between what the entries before it and the entries behind it send on that
  call; after that call the queue is the queue the other entries would form without
  it, and it is never sent again.
\<close>

theorem tick_runs_entry_after_delay:
  "(\<forall>k\<le>unat (delay_ticks e).
      queue_after k (pre @ (p, e) # post) =
        queue_after k pre @ (p, e\<lparr>delay_ticks := delay_ticks e - of_nat k\<rparr>) # queue_after k post) \<and>
   (\<forall>k>unat (delay_ticks e).
      queue_after k (pre @ (p, e) # post) = queue_after k pre @ queue_after k post) \<and>
   (\<forall>j. tick_output j (pre @ (p, e) # post) =
      tick_output j pre @ (if j = unat (delay_ticks e) then task_msg e else []) @ tick_output j post)"
proof -
  have q: "queue_after k (pre @ (p, e) # post) = queue_after k pre @ queue_after k [(p, e)] @ queue_after k post" for k
    using queue_after_append[of k pre "[(p, e)] @ post"] queue_after_append[of k "[(p, e)]" post] by simp
  have t: "tick_output j (pre @ (p, e) # post) = tick_output j pre @ tick_output j [(p, e)] @ tick_output j post" for j
    using tick_output_append[of j pre "[(p, e)] @ post"] tick_output_append[of j "[(p, e)]" post] by simp
  show ?thesis
    by (simp add: q t queue_after_single tick_output_single)
qed

theorem tick_runs_entry_after_delay_witness:
  "queue_after 1 [(0x200, new_task (str ''A'') 20 3)] =
     [(0x200, (new_task (str ''A'') 20 3)\<lparr>delay_ticks := 1\<rparr>)] \<and>
   queue_after 3 [(0x200, new_task (str ''A'') 20 3)] = [] \<and>
   tick_output 1 [(0x200, new_task (str ''A'') 20 3)] = [] \<and>
   tick_output 2 [(0x200, new_task (str ''A'') 20 3)] = task_msg (new_task (str ''A'') 20 3)"
proof -
  let ?e = "new_task (str ''A'') 20 3"
  have d: "delay_ticks ?e = 2" by (simp add: new_task_def TICK_MS_def)
  note t = tick_runs_entry_after_delay[of ?e "[]" "0x200" "[]"]
  from t have a: "\<forall>k\<le>unat (delay_ticks ?e). queue_after k ([] @ (0x200, ?e) # []) =
      queue_after k [] @ (0x200, ?e\<lparr>delay_ticks := delay_ticks ?e - of_nat k\<rparr>) # queue_after k []"
    by (rule conjunct1)
  from t have b: "\<forall>k>unat (delay_ticks ?e). queue_after k ([] @ (0x200, ?e) # []) =
      queue_after k [] @ queue_after k []"
    by blast
  from t have c: "\<forall>j. tick_output j ([] @ (0x200, ?e) # []) =
      tick_output j [] @ (if j = unat (delay_ticks ?e) then task_msg ?e else []) @ tick_output j []"
    by blast
  have 1: "queue_after 1 [(0x200, ?e)] = [(0x200, ?e\<lparr>delay_ticks := 1\<rparr>)]"
    using a[rule_format, of 1] by (simp add: d)
  have 2: "queue_after 3 [(0x200, ?e)] = []"
    using b[rule_format, of 3] by (simp add: d)
  have 3: "tick_output 1 [(0x200, ?e)] = []"
    using c[rule_format, of 1] by (simp add: d tick_output_def)
  have 4: "tick_output 2 [(0x200, ?e)] = task_msg ?e"
    using c[rule_format, of 2] by (simp add: d tick_output_def)
  from 1 2 3 4 show ?thesis by blast
qed

subsection \<open>Milliseconds to ticks\<close>

text \<open>
  Claim C10. A successful \<^verbatim>\<open>add_log\<close> stores \<open>delay_ms div 10\<close> as the new entry's
  tick count, the remainder being dropped. A delay below 10 ms therefore gives the
  count 0, and the next call of \<^verbatim>\<open>execute_tasks\<close> sends the entry's text and removes
  it. A delay of 25 ms gives 2 ticks.
\<close>

theorem add_log_delay_ticks:
  assumes "new_node \<noteq> 0"
  shows "add_log new_node msg delay_ms prio q =
      takeWhile (\<lambda>x. priority (snd x) \<le> prio) q @ (new_node, new_task msg delay_ms prio) #
      dropWhile (\<lambda>x. priority (snd x) \<le> prio) q \<and>
    unat (delay_ticks (new_task msg delay_ms prio)) = unat delay_ms div 10 \<and>
    unat delay_ms = 10 * unat (delay_ticks (new_task msg delay_ms prio)) + unat delay_ms mod 10 \<and>
    (unat delay_ms < 10 \<longrightarrow>
       delay_ticks (new_task msg delay_ms prio) = 0 \<and>
       execute_tasks (add_log new_node msg delay_ms prio q) =
         (fst (execute_tasks (takeWhile (\<lambda>x. priority (snd x) \<le> prio) q)) @
            task_msg (new_task msg delay_ms prio) @
            fst (execute_tasks (dropWhile (\<lambda>x. priority (snd x) \<le> prio) q)),
          snd (execute_tasks (takeWhile (\<lambda>x. priority (snd x) \<le> prio) q)) @
            snd (execute_tasks (dropWhile (\<lambda>x. priority (snd x) \<le> prio) q)))) \<and>
    delay_ticks (new_task msg 25 prio) = 2"
proof -
  let ?n = "new_task msg delay_ms prio"
  let ?pre = "takeWhile (\<lambda>x. priority (snd x) \<le> prio) q"
  let ?post = "dropWhile (\<lambda>x. priority (snd x) \<le> prio) q"
  have sp: "add_log new_node msg delay_ms prio q = ?pre @ (new_node, ?n) # ?post"
    by (rule add_log_split[OF assms])
  have d: "unat (delay_ticks ?n) = unat delay_ms div 10" by (rule delay_ticks_new_task)
  have r: "unat delay_ms = 10 * unat (delay_ticks ?n) + unat delay_ms mod 10"
    by (simp add: d)
  have z: "delay_ticks ?n = 0" if "unat delay_ms < 10"
    using that d by (simp add: unat_eq_0[symmetric] del: unat_eq_0)
  have ex: "execute_tasks (add_log new_node msg delay_ms prio q) =
      (fst (execute_tasks ?pre) @ task_msg ?n @ fst (execute_tasks ?post),
       snd (execute_tasks ?pre) @ snd (execute_tasks ?post))" if "unat delay_ms < 10"
    using execute_tasks_append[of ?pre "(new_node, ?n) # ?post"] z[OF that]
    by (simp add: sp split_beta)
  have e25: "delay_ticks (new_task msg 25 prio) = 2"
    by (simp add: new_task_def TICK_MS_def)
  show ?thesis
    using sp d r z ex e25 by blast
qed

theorem add_log_delay_ticks_witness:
  "(0x200 :: ptr) \<noteq> 0 \<and>
   add_log 0x200 (str ''N'') 7 5 [] = [(0x200, new_task (str ''N'') 7 5)] \<and>
   delay_ticks (new_task (str ''N'') 7 5) = 0 \<and>
   execute_tasks (add_log 0x200 (str ''N'') 7 5 []) = (task_msg (new_task (str ''N'') 7 5), [])"
proof -
  have h: "(0x200 :: ptr) \<noteq> 0" by simp
  have u: "unat (7 :: 16 word) < 10" by simp
  from add_log_delay_ticks[OF h, of "str ''N''" 7 5 "[]"] u h show ?thesis by simp
qed

section \<open>Properties of saving and loading\<close>

subsection \<open>Block writes and reads\<close>


lemma unat_diff_succ:
  assumes "x \<noteq> (a :: 16 word)"
  shows "unat (x - a) = Suc (unat (x - (a + 1)))"
proof -
  from assms have "x - a \<noteq> 0" by simp
  then have pos: "0 < unat (x - a)" by (simp add: unat_gt_0)
  have e: "x - (a + 1) = (x - a) - 1" by simp
  have "unat ((x - a) - 1) = unat (x - a) - 1"
    using \<open>x - a \<noteq> 0\<close> by (rule unat_minus_one)
  then have "unat (x - (a + 1)) = unat (x - a) - 1" by (simp only: e)
  with pos show ?thesis by linarith
qed

lemma eeprom_write_block_at:
  "length bs \<le> 2 ^ 16 \<Longrightarrow>
   eeprom_write_block bs a m x = (if unat (x - a) < length bs then bs ! unat (x - a) else m x)"
proof (induction bs arbitrary: a m)
  case Nil
  then show ?case by simp
next
  case (Cons b bs)
  from Cons.prems have len: "length bs \<le> 2 ^ 16" and lt: "length bs < 2 ^ 16" by simp_all
  have step: "eeprom_write_block (b # bs) a m x = eeprom_write_block bs (a + 1) (m(a := b)) x"
    by (simp only: eeprom_write_block.simps)
  note ih = Cons.IH[OF len, of "a + 1" "m(a := b)"]
  show ?case
  proof (cases "x = a")
    case True
    have "a - (a + 1) = (- 1 :: 16 word)" by simp
    then have "unat (a - (a + 1)) = unat (- 1 :: 16 word)" by (rule arg_cong)
    then have "unat (a - (a + 1)) = 2 ^ 16 - 1"
      by (simp add: unsigned_minus_1_eq_mask mask_eq_exp_minus_1)
    with lt True have nlt: "\<not> unat (x - (a + 1)) < length bs" by simp
    have "eeprom_write_block bs (a + 1) (m(a := b)) x = (m(a := b)) x"
      using ih nlt by (simp only: if_False)
    also have "\<dots> = b" using True by simp
    finally have "eeprom_write_block (b # bs) a m x = b" using step by simp
    then show ?thesis using True by simp
  next
    case False
    note u = unat_diff_succ[OF False]
    have upd: "(m(a := b)) x = m x" using False by simp
    have "eeprom_write_block (b # bs) a m x =
        (if unat (x - (a + 1)) < length bs then bs ! unat (x - (a + 1)) else m x)"
      using step ih upd by (simp only:)
    then show ?thesis by (simp add: u)
  qed
qed

lemma eeprom_write_block_append:
  "eeprom_write_block (xs @ ys) a m =
     eeprom_write_block ys (a + of_nat (length xs)) (eeprom_write_block xs a m)"
proof (induction xs arbitrary: a m)
  case Nil
  then show ?case by simp
next
  case (Cons b xs)
  have "a + 1 + of_nat (length xs) = a + of_nat (length (b # xs))" by simp
  with Cons[of "a + 1" "m(a := b)"] show ?case by (simp only: append_Cons eeprom_write_block.simps)
qed

lemma eeprom_read_write:
  assumes "off + n \<le> length bs" and "length bs \<le> 2 ^ 16"
  shows "eeprom_read_block (a + of_nat off) n (eeprom_write_block bs a m) = take n (drop off bs)"
proof (rule nth_equalityI)
  show "length (eeprom_read_block (a + of_nat off) n (eeprom_write_block bs a m)) = length (take n (drop off bs))"
    using assms by (simp add: eeprom_read_block_def)
next
  fix i
  assume "i < length (eeprom_read_block (a + of_nat off) n (eeprom_write_block bs a m))"
  then have i: "i < n" by (simp add: eeprom_read_block_def)
  with assms have b: "off + i < length bs" "off + i < 2 ^ 16" by simp_all
  have "a + of_nat off + of_nat i - a = (of_nat (off + i) :: 16 word)" by simp
  then have "unat (a + of_nat off + of_nat i - a) = off + i"
    using b(2) by (simp only: unat_of_nat) simp
  then show "eeprom_read_block (a + of_nat off) n (eeprom_write_block bs a m) ! i = take n (drop off bs) ! i"
    using i b assms by (simp add: eeprom_read_block_def eeprom_write_block_at)
qed

lemma eeprom_write_outside:
  assumes "length bs \<le> 2 ^ 16" and "length bs \<le> unat (x - a)"
  shows "eeprom_write_block bs a m x = m x"
  using assms by (simp add: eeprom_write_block_at)

lemma length_le16 [simp]: "length (le16 w) = 2"
  by (simp add: le16_def)

lemma of_le16_le16: "of_le16 (ucast w) (ucast (drop_bit 8 w)) = w"
  unfolding of_le16_def
  apply (rule bit_word_eqI)
  apply (auto simp: bit_simps)
  done

subsection \<open>Record images, the save loop and the load loop\<close>


lemma length_node_image:
  "length (data n) = MAX_CMD_LEN \<Longrightarrow> length (node_image n nxt) = sizeof_TaskNode"
  by (simp add: node_image_def sizeof_TaskNode_def MAX_CMD_LEN_def)

lemma node_of_image_image:
  assumes "length (data n) = MAX_CMD_LEN"
  shows "node_of_image (node_image n nxt @ rest) = n"
proof -
  have "node_of_image (node_image n nxt @ rest) =
      \<lparr>data = data n, delay_ticks = delay_ticks n, priority = priority n\<rparr>"
    using assms
    by (simp add: node_of_image_def node_image_def le16_def nth_append of_le16_le16)
  then show ?thesis by simp
qed

lemma chain_wf_Cons [simp]:
  "chain_wf (x # q) \<longleftrightarrow> length (data (snd x)) = MAX_CMD_LEN \<and> chain_wf q"
  by (simp add: chain_wf_def)

lemma chain_wf_Nil [simp]: "chain_wf []"
  by (simp add: chain_wf_def)

lemma chain_wf_nth: "chain_wf q \<Longrightarrow> i < length q \<Longrightarrow> length (data (snd (q ! i))) = MAX_CMD_LEN"
  by (simp add: chain_wf_def list_all_length)

lemma length_chain_image: "chain_wf q \<Longrightarrow> length (chain_image q) = sizeof_TaskNode * length q"
  by (induction q rule: chain_image.induct) (simp_all add: length_node_image)

lemma save_loop_image:
  "chain_wf q \<Longrightarrow>
   save_loop q s =
     s\<lparr>eeprom := eeprom_write_block (chain_image q) (ee_address s) (eeprom s),
       ee_address := ee_address s + of_nat (sizeof_TaskNode * length q)\<rparr>"
proof (induction q s rule: save_loop.induct)
  case (1 s)
  then show ?case by simp
next
  case (2 p n rest s)
  from 2(2) have n: "length (data n) = MAX_CMD_LEN" and rest: "chain_wf rest" by simp_all
  show ?case
    by (simp add: 2(1)[OF rest] eeprom_write_block_append length_node_image[OF n]
        add.assoc distrib_left)
qed

lemma chain_image_record:
  "chain_wf q \<Longrightarrow> i < length q \<Longrightarrow>
   take sizeof_TaskNode (drop (sizeof_TaskNode * i) (chain_image q)) =
     node_image (snd (q ! i)) (next_ptr (drop (Suc i) q))"
proof (induction q arbitrary: i rule: chain_image.induct)
  case 1
  then show ?case by simp
next
  case (2 p n rest)
  from 2(2) have n: "length (data n) = MAX_CMD_LEN" and rest: "chain_wf rest" by simp_all
  note len = length_node_image[OF n]
  show ?case
  proof (cases i)
    case 0
    then show ?thesis by (simp add: len)
  next
    case (Suc j)
    with 2(3) have j: "j < length rest" by simp
    have "drop (sizeof_TaskNode * i) (chain_image ((p, n) # rest)) =
        drop (sizeof_TaskNode * j) (chain_image rest)"
      using Suc by (simp add: len)
    then show ?thesis using 2(1)[OF rest j] Suc by simp
  qed
qed

lemma load_loop_closed:
  "load_loop i malloc (q, s) =
     (rev (map (\<lambda>j. (malloc (i + j),
                     node_of_image (eeprom_read_block (ee_address s + of_nat (sizeof_TaskNode * j))
                        sizeof_TaskNode (eeprom s))))
               [0..<length (takeWhile (\<lambda>j. malloc j \<noteq> 0) [i..<MAX_LOGS])]) @ q,
      s\<lparr>ee_address := ee_address s +
           of_nat (sizeof_TaskNode * length (takeWhile (\<lambda>j. malloc j \<noteq> 0) [i..<MAX_LOGS]))\<rparr>)"
proof (induction i malloc "(q, s)" arbitrary: q s rule: load_loop.induct)
  case (1 i malloc q s)
  show ?case
  proof (cases "i < MAX_LOGS")
    case False
    then show ?thesis by (simp add: load_loop.simps[of i])
  next
    case lt: True
    then have upt: "[i..<MAX_LOGS] = i # [Suc i..<MAX_LOGS]" by (rule upt_conv_Cons)
    show ?thesis
    proof (cases "malloc i = 0")
      case True
      with lt upt show ?thesis by (simp add: load_loop.simps[of i])
    next
      case False
      let ?k = "length (takeWhile (\<lambda>j. malloc j \<noteq> 0) [Suc i..<MAX_LOGS])"
      let ?f = "\<lambda>j. (malloc (i + j),
          node_of_image (eeprom_read_block (ee_address s + of_nat (sizeof_TaskNode * j))
             sizeof_TaskNode (eeprom s)))"
      let ?s' = "s\<lparr>ee_address := ee_address s + of_nat sizeof_TaskNode\<rparr>"
      let ?g = "\<lambda>j. (malloc (i + 1 + j),
          node_of_image (eeprom_read_block (ee_address ?s' + of_nat (sizeof_TaskNode * j))
             sizeof_TaskNode (eeprom ?s')))"
      have k: "length (takeWhile (\<lambda>j. malloc j \<noteq> 0) [i..<MAX_LOGS]) = Suc ?k"
        using False upt by simp
      have "[0..<Suc ?k] = 0 # map Suc [0..<?k]"
        by (simp add: upt_conv_Cons map_Suc_upt del: upt_Suc)
      then have split: "map ?f [0..<Suc ?k] = ?f 0 # map (\<lambda>j. ?f (Suc j)) [0..<?k]"
        by (simp only: list.map map_map comp_def)
      have gf: "?g j = ?f (Suc j)" for j
        by (simp add: algebra_simps)
      have cur: "ee_address ?s' + of_nat (sizeof_TaskNode * ?k) =
          ee_address s + of_nat (sizeof_TaskNode * Suc ?k)"
        by (simp add: algebra_simps)
      have "load_loop i malloc (q, s) = load_loop (i + 1) malloc (?f 0 # q, ?s')"
        using lt False by (simp add: load_loop.simps[of i])
      also have "\<dots> = (rev (map ?g [0..<?k]) @ ?f 0 # q,
          ?s'\<lparr>ee_address := ee_address ?s' + of_nat (sizeof_TaskNode * ?k)\<rparr>)"
        using 1[OF lt False] by simp
      also have "\<dots> = (rev (map ?f [0..<Suc ?k]) @ q,
          s\<lparr>ee_address := ee_address s + of_nat (sizeof_TaskNode * Suc ?k)\<rparr>)"
        unfolding split gf cur by simp
      finally show ?thesis by (simp only: k)
    qed
  qed
qed

subsection \<open>How many rounds the load loop makes\<close>



lemma load_count_le: "load_count malloc \<le> MAX_LOGS"
  unfolding load_count_def using length_takeWhile_le[of "\<lambda>i. malloc i \<noteq> 0" "[0..<MAX_LOGS]"] by simp

lemma load_count_all: "(\<forall>i<MAX_LOGS. malloc i \<noteq> 0) \<Longrightarrow> load_count malloc = MAX_LOGS"
proof -
  assume "\<forall>i<MAX_LOGS. malloc i \<noteq> 0"
  then have "takeWhile (\<lambda>i. malloc i \<noteq> 0) [0..<MAX_LOGS] = [0..<MAX_LOGS]"
    by (simp add: takeWhile_eq_all_conv)
  then have "length (takeWhile (\<lambda>i. malloc i \<noteq> 0) [0..<MAX_LOGS]) = length [0..<MAX_LOGS]"
    by (rule arg_cong)
  then show ?thesis by (simp only: load_count_def length_upt diff_zero)
qed

lemma load_count_fail: "i < MAX_LOGS \<Longrightarrow> malloc i = 0 \<Longrightarrow> load_count malloc \<le> i"
proof (rule ccontr)
  assume i: "i < MAX_LOGS" and z: "malloc i = 0" and "\<not> load_count malloc \<le> i"
  then have lt: "i < length (takeWhile (\<lambda>i. malloc i \<noteq> 0) [0..<MAX_LOGS])"
    by (simp add: load_count_def)
  then have "takeWhile (\<lambda>i. malloc i \<noteq> 0) [0..<MAX_LOGS] ! i \<in> set (takeWhile (\<lambda>i. malloc i \<noteq> 0) [0..<MAX_LOGS])"
    by (rule nth_mem)
  moreover have "takeWhile (\<lambda>i. malloc i \<noteq> 0) [0..<MAX_LOGS] ! i = [0..<MAX_LOGS] ! i"
    using lt by (rule takeWhile_nth)
  ultimately have "i \<in> set (takeWhile (\<lambda>i. malloc i \<noteq> 0) [0..<MAX_LOGS])"
    using i by simp
  then have "malloc i \<noteq> 0" by (rule set_takeWhileD[THEN conjunct2])
  with z show False by simp
qed

lemma load_logs_closed:
  "load_logs_from_eeprom malloc q s =
     (str ''Logs loaded from EEPROM.'' @ [10],
      rev (map (\<lambda>i. (malloc i, loaded_node (eeprom s) i)) [0..<load_count malloc]) @ q,
      s\<lparr>ee_address := of_nat (sizeof_TaskNode * load_count malloc)\<rparr>)"
  by (simp add: load_logs_from_eeprom_def load_loop_closed load_count_def loaded_node_def)

lemma alloc_ok_nonnull: "i < MAX_LOGS \<Longrightarrow> alloc_ok i \<noteq> 0"
proof -
  assume "i < MAX_LOGS"
  then have "512 + 48 * i < 2 ^ 16" by (simp add: MAX_LOGS_def)
  then have "unat (of_nat (512 + 48 * i) :: 16 word) = 512 + 48 * i"
    by (simp only: unat_of_nat) simp
  then have "unat (alloc_ok i) \<noteq> 0" by (simp add: alloc_ok_def)
  then show ?thesis by (simp add: unat_eq_0[symmetric] del: unat_eq_0)
qed

subsection \<open>Insertion, execution and loading keep text arrays full\<close>


lemma chain_wf_new_task: "length (data (new_task msg d pr)) = MAX_CMD_LEN"
  by (simp add: new_task_def strncpy_def Let_def MAX_CMD_LEN_def)

lemma chain_wf_append [simp]: "chain_wf (xs @ ys) \<longleftrightarrow> chain_wf xs \<and> chain_wf ys"
  by (simp add: chain_wf_def)

lemma chain_wf_add_log: "chain_wf q \<Longrightarrow> chain_wf (add_log new_node msg d pr q)"
proof (cases "new_node = 0")
  case True
  assume "chain_wf q"
  with True show ?thesis by simp
next
  case False
  assume "chain_wf q"
  then have "chain_wf (takeWhile (\<lambda>x. priority (snd x) \<le> pr) q)"
    and "chain_wf (dropWhile (\<lambda>x. priority (snd x) \<le> pr) q)"
    by (auto simp: chain_wf_def list_all_iff dest: set_takeWhileD set_dropWhileD)
  then show ?thesis
    unfolding add_log_split[OF False] by (simp add: chain_wf_new_task)
qed

lemma chain_wf_add_logs: "chain_wf q \<Longrightarrow> chain_wf (add_logs ins q)"
  by (induction ins q rule: add_logs.induct) (simp_all add: chain_wf_add_log)

lemma save_logs_closed:
  "chain_wf q \<Longrightarrow>
   snd (save_logs_to_eeprom q s) =
     s\<lparr>eeprom := eeprom_write_block (chain_image q) (ee_address s) (eeprom s),
       ee_address := ee_address s + of_nat (sizeof_TaskNode * length q)\<rparr>"
  by (simp add: save_logs_to_eeprom_def save_loop_image)

lemma saved_record:
  assumes "chain_wf q" and "sizeof_TaskNode * length q \<le> 2 ^ 16" and "i < length q"
  shows "eeprom_read_block (a + of_nat (sizeof_TaskNode * i)) sizeof_TaskNode
           (eeprom_write_block (chain_image q) a m) =
         node_image (snd (q ! i)) (next_ptr (drop (Suc i) q))"
proof -
  have len: "length (chain_image q) = sizeof_TaskNode * length q"
    by (rule length_chain_image[OF assms(1)])
  from assms(3) have "Suc i \<le> length q" by simp
  then have "sizeof_TaskNode * Suc i \<le> sizeof_TaskNode * length q"
    by (rule mult_le_mono2)
  then have fit: "sizeof_TaskNode * i + sizeof_TaskNode \<le> length (chain_image q)"
    by (simp add: len)
  have "eeprom_read_block (a + of_nat (sizeof_TaskNode * i)) sizeof_TaskNode
           (eeprom_write_block (chain_image q) a m) =
        take sizeof_TaskNode (drop (sizeof_TaskNode * i) (chain_image q))"
    using fit assms(2) by (intro eeprom_read_write) (simp_all add: len)
  then show ?thesis by (simp only: chain_image_record[OF assms(1) assms(3)])
qed

lemma chain_wf_execute_tasks: "chain_wf q \<Longrightarrow> chain_wf (snd (execute_tasks q))"
  by (induction q rule: execute_tasks.induct) (simp_all add: split_beta)

lemma length_eeprom_read_block [simp]: "length (eeprom_read_block a n m) = n"
  by (simp add: eeprom_read_block_def)

lemma chain_wf_loaded_node: "length (data (loaded_node m i)) = MAX_CMD_LEN"
  by (simp add: loaded_node_def node_of_image_def sizeof_TaskNode_def MAX_CMD_LEN_def)

lemma chain_wf_load:
  "chain_wf q \<Longrightarrow> chain_wf (fst (snd (load_logs_from_eeprom malloc q s)))"
  by (auto simp add: load_logs_closed chain_wf_def list_all_iff chain_wf_loaded_node)

subsection \<open>Facts about the example situations\<close>

lemma eeprom_read_block_cong:
  "(\<And>i. i < n \<Longrightarrow> m (a + of_nat i) = m' (a + of_nat i)) \<Longrightarrow>
   eeprom_read_block a n m = eeprom_read_block a n m'"
  by (simp add: eeprom_read_block_def)

lemma unat_below_cursor:
  assumes "i < k" and "k < 2 ^ 16"
  shows "2 ^ 16 - k \<le> unat (of_nat i - of_nat k :: 16 word)"
proof (rule ccontr)
  let ?y = "of_nat i - of_nat k :: 16 word"
  assume "\<not> 2 ^ 16 - k \<le> unat ?y"
  then have small: "unat ?y + k < 2 ^ 16" using assms(2) by simp
  have k: "unat (of_nat k :: 16 word) = k" using assms(2) by (simp add: unat_of_nat)
  have i: "unat (of_nat i :: 16 word) = i" using assms by (simp add: unat_of_nat)
  from small k have "unat ?y + unat (of_nat k :: 16 word) < 2 ^ LENGTH(16)" by simp
  then have "unat (?y + of_nat k) = unat ?y + unat (of_nat k :: 16 word)"
    by (simp only: unat_add_lem)
  moreover have "?y + of_nat k = of_nat i" by simp
  ultimately have "i = unat ?y + k" using i k by simp
  with assms(1) show False by simp
qed

lemma chain_wf_ten: "chain_wf (add_logs ten_requests [])"
  by (rule chain_wf_add_logs) simp

lemma length_ten: "length (add_logs ten_requests []) = MAX_LOGS"
  by code_simp

lemma load_count_alloc_3: "load_count alloc_3 = 3"
  by code_simp

lemma first_of_ten: "priority (snd (hd (add_logs ten_requests []))) = 0"
  by code_simp

lemma ten_nonempty: "add_logs ten_requests [] \<noteq> []"
  using length_ten by (auto simp: MAX_LOGS_def)

lemma load_after_second_save:
  "loaded_node (eeprom (snd (save_logs_to_eeprom (add_logs ten_requests [])
      (snd (save_logs_to_eeprom (add_logs [request_A] []) boot))))) 0 = new_task (str ''A'') 0 5"
proof -
  let ?Q = "add_logs ten_requests []"
  let ?A = "add_logs [request_A] []"
  let ?S1 = "snd (save_logs_to_eeprom ?A boot)"
  have wfA: "chain_wf ?A" by (rule chain_wf_add_logs) simp
  have A: "?A = [(alloc_ok 0, new_task (str ''A'') 0 5)]"
    by (simp add: request_A_def add_log_def alloc_ok_def)
  have S1: "?S1 = boot\<lparr>eeprom := eeprom_write_block (chain_image ?A) 0 erased, ee_address := 37\<rparr>"
    by (simp add: save_logs_closed[OF wfA]) (simp add: A boot_def sizeof_TaskNode_def)
  have lenQ: "length (chain_image ?Q) = 370"
    by (simp add: length_chain_image[OF chain_wf_ten] length_ten sizeof_TaskNode_def MAX_LOGS_def)
  have S2: "eeprom (snd (save_logs_to_eeprom ?Q ?S1)) =
      eeprom_write_block (chain_image ?Q) 37 (eeprom_write_block (chain_image ?A) 0 erased)"
    by (simp add: save_logs_closed[OF chain_wf_ten] S1)
  have "eeprom_read_block 0 sizeof_TaskNode (eeprom (snd (save_logs_to_eeprom ?Q ?S1))) =
      eeprom_read_block 0 sizeof_TaskNode (eeprom_write_block (chain_image ?A) 0 erased)"
  proof (rule eeprom_read_block_cong)
    fix i assume "i < sizeof_TaskNode"
    then have i: "i < 37" by (simp add: sizeof_TaskNode_def)
    from unat_below_cursor[OF i] have "2 ^ 16 - 37 \<le> unat (of_nat i - of_nat 37 :: 16 word)" by simp
    then have far: "length (chain_image ?Q) \<le> unat ((0 + of_nat i) - 37 :: 16 word)"
      by (simp add: lenQ)
    have "length (chain_image ?Q) \<le> 2 ^ 16" by (simp add: lenQ)
    from eeprom_write_outside[OF this far]
    show "eeprom (snd (save_logs_to_eeprom ?Q ?S1)) (0 + of_nat i) =
        eeprom_write_block (chain_image ?A) 0 erased (0 + of_nat i)"
      by (simp only: S2)
  qed
  also have "\<dots> = node_image (snd (?A ! 0)) (next_ptr (drop (Suc 0) ?A))"
    using saved_record[OF wfA, of 0 0 erased] by (simp add: A sizeof_TaskNode_def)
  also have "\<dots> = node_image (new_task (str ''A'') 0 5) 0 @ []"
    by (simp add: A next_ptr_def)
  finally show ?thesis
    by (simp only: loaded_node_def mult_0_right semiring_1_class.of_nat_0
        node_of_image_image[OF chain_wf_new_task])
qed

subsection \<open>Where a save starts\<close>

text \<open>
  Claim C6 says that every call of \<^verbatim>\<open>save_logs_to_eeprom\<close> writes its records from
  address 0. The function never assigns the cursor, it only advances it; the value 0
  comes from the initialiser of \<^verbatim>\<open>ee_address\<close>, and \<^verbatim>\<open>load_logs_from_eeprom\<close> is the only
  function that sets the cursor back. Evaluated after power-up: a first save of the
  queue holding \<open>A\<close> leaves the cursor at 37; a second save, of the queue holding
  \<open>B\<close>, leaves it at 74, has written the record of \<open>B\<close> at the addresses 37 to 73,
  and the addresses 0 to 36 still hold the record of \<open>A\<close>.
\<close>

theorem save_second_call_appends:
  "ee_address boot = 0 \<and>
   ee_address (snd (save_logs_to_eeprom (add_logs [request_A] []) boot)) = 37 \<and>
   ee_address (snd (save_logs_to_eeprom (add_logs [request_B] [])
     (snd (save_logs_to_eeprom (add_logs [request_A] []) boot)))) = 74 \<and>
   eeprom_read_block 0 37 (eeprom (snd (save_logs_to_eeprom (add_logs [request_B] [])
     (snd (save_logs_to_eeprom (add_logs [request_A] []) boot))))) =
     node_image (new_task (str ''A'') 0 5) 0 \<and>
   eeprom_read_block 37 37 (eeprom (snd (save_logs_to_eeprom (add_logs [request_B] [])
     (snd (save_logs_to_eeprom (add_logs [request_A] []) boot))))) =
     node_image (new_task (str ''B'') 0 5) 0"
  by code_simp

subsection \<open>What a saved record holds\<close>

text \<open>
  Claim C8 says that a saved record holds the text buffer, the tick count and the
  priority, and nothing else. The save loop writes \<^verbatim>\<open>sizeof(TaskNode)\<close> bytes of the
  node, which include its \<^verbatim>\<open>next\<close> pointer. In the queue of \<open>A\<close> and \<open>B\<close> the record
  of \<open>A\<close> is 37 bytes long and ends with the two bytes of the address of the node of
  \<open>B\<close> (560, low byte first).
\<close>

theorem save_record_has_link_counterexample:
  "eeprom_read_block 0 sizeof_TaskNode
     (eeprom (snd (save_logs_to_eeprom (add_logs [request_A, request_B] []) boot))) =
     spec_record (new_task (str ''A'') 0 5) @ [48, 2] \<and>
   eeprom_read_block 0 sizeof_TaskNode
     (eeprom (snd (save_logs_to_eeprom (add_logs [request_A, request_B] []) boot))) \<noteq>
     spec_record (new_task (str ''A'') 0 5) \<and>
   alloc_ok 1 = 560 \<and> le16 560 = [48, 2]"
  by code_simp

text \<open>
  Claim C8, amended. Let the queue hold nodes with full text arrays (every queue that
  insertion, execution and loading produce does), few enough for their records not to
  wrap around the 16-bit address space (the nodes themselves, 37 bytes each, have to
  fit into it). A save writes, for the node at
  position \<open>i\<close>, a record of \<open>sizeof_TaskNode = 32 + 2 + 1 + 2\<close> bytes at the cursor
  plus \<open>i\<close> times that size: the 32 bytes of the text buffer, the tick count in two
  bytes with the low byte first, the priority in one byte, and the two bytes of the
  node's \<^verbatim>\<open>next\<close> pointer (the address of the node behind it, or 0). No other byte of
  the store changes, so there is no header, count field or checksum, and the cursor
  ends behind the last record.
\<close>

theorem save_record_layout:
  assumes "chain_wf q" and "sizeof_TaskNode * length q \<le> 2 ^ 16"
  shows "(\<forall>i<length q.
            eeprom_read_block (ee_address s + of_nat (sizeof_TaskNode * i)) sizeof_TaskNode
              (eeprom (snd (save_logs_to_eeprom q s))) =
            data (snd (q ! i)) @ le16 (delay_ticks (snd (q ! i))) @ [priority (snd (q ! i))] @
              le16 (next_ptr (drop (Suc i) q))) \<and>
         (\<forall>x. sizeof_TaskNode * length q \<le> unat (x - ee_address s) \<longrightarrow>
            eeprom (snd (save_logs_to_eeprom q s)) x = eeprom s x) \<and>
         ee_address (snd (save_logs_to_eeprom q s)) =
           ee_address s + of_nat (sizeof_TaskNode * length q) \<and>
         sizeof_TaskNode = MAX_CMD_LEN + 2 + 1 + 2"
proof (intro conjI allI impI)
  fix i assume i: "i < length q"
  show "eeprom_read_block (ee_address s + of_nat (sizeof_TaskNode * i)) sizeof_TaskNode
              (eeprom (snd (save_logs_to_eeprom q s))) =
            data (snd (q ! i)) @ le16 (delay_ticks (snd (q ! i))) @ [priority (snd (q ! i))] @
              le16 (next_ptr (drop (Suc i) q))"
    using saved_record[OF assms i, of "ee_address s" "eeprom s"]
    by (simp add: save_logs_closed[OF assms(1)] node_image_def)
next
  fix x assume "sizeof_TaskNode * length q \<le> unat (x - ee_address s)"
  then have "length (chain_image q) \<le> unat (x - ee_address s)"
    by (simp add: length_chain_image[OF assms(1)])
  moreover have "length (chain_image q) \<le> 2 ^ 16"
    using assms(2) by (simp add: length_chain_image[OF assms(1)])
  ultimately have "eeprom_write_block (chain_image q) (ee_address s) (eeprom s) x = eeprom s x"
    by (intro eeprom_write_outside)
  then show "eeprom (snd (save_logs_to_eeprom q s)) x = eeprom s x"
    by (simp add: save_logs_closed[OF assms(1)])
next
  show "ee_address (snd (save_logs_to_eeprom q s)) = ee_address s + of_nat (sizeof_TaskNode * length q)"
    by (simp add: save_logs_closed[OF assms(1)])
next
  show "sizeof_TaskNode = MAX_CMD_LEN + 2 + 1 + 2"
    by (simp add: sizeof_TaskNode_def MAX_CMD_LEN_def)
qed

theorem save_record_layout_witness:
  "chain_wf (add_logs [request_A, request_B] []) \<and>
   sizeof_TaskNode * length (add_logs [request_A, request_B] []) \<le> 2 ^ 16 \<and>
   eeprom_read_block 0 sizeof_TaskNode
     (eeprom (snd (save_logs_to_eeprom (add_logs [request_A, request_B] []) boot))) =
     data (new_task (str ''A'') 0 5) @ le16 0 @ [5] @ le16 (alloc_ok 1)"
proof -
  let ?Q = "add_logs [request_A, request_B] []"
  have Q: "?Q = [(alloc_ok 0, new_task (str ''A'') 0 5), (alloc_ok 1, new_task (str ''B'') 0 5)]"
    by (simp add: request_A_def request_B_def add_log_def alloc_ok_def)
  have wf: "chain_wf ?Q" by (rule chain_wf_add_logs) simp
  have fits: "sizeof_TaskNode * length ?Q \<le> 2 ^ 16" by (simp add: Q sizeof_TaskNode_def)
  note lay = save_record_layout[OF wf fits, of boot, THEN conjunct1, rule_format, of 0]
  have "eeprom_read_block 0 sizeof_TaskNode (eeprom (snd (save_logs_to_eeprom ?Q boot))) =
     data (new_task (str ''A'') 0 5) @ le16 0 @ [5] @ le16 (alloc_ok 1)"
    using lay by (simp add: Q boot_def next_ptr_def new_task_def TICK_MS_def)
  with wf fits show ?thesis by blast
qed

subsection \<open>Saving, then loading\<close>

text \<open>
  Claim C3 says that saving a queue of \<open>MAX_LOGS\<close> entries and loading into an empty
  queue gives the entries back in reverse order. Two runs of the code on the queue of
  the ten requests show otherwise. In the first, a queue holding \<open>A\<close> was saved
  before: the second save starts at address 37, the load reads from address 0, and
  the result differs from the reversed queue (the first record read is that of
  \<open>A\<close>). In the second, memory runs out after three nodes: the load stops there and
  returns three entries.
\<close>

theorem save_load_counterexample:
  "length (add_logs ten_requests []) = MAX_LOGS \<and>
   map snd (fst (snd (load_logs_from_eeprom alloc_ok []
      (snd (save_logs_to_eeprom (add_logs ten_requests [])
         (snd (save_logs_to_eeprom (add_logs [request_A] []) boot))))))) \<noteq>
     rev (map snd (add_logs ten_requests [])) \<and>
   map snd (fst (snd (load_logs_from_eeprom alloc_3 []
      (snd (save_logs_to_eeprom (add_logs ten_requests []) boot))))) \<noteq>
     rev (map snd (add_logs ten_requests []))"
proof (intro conjI)
  let ?Q = "add_logs ten_requests []"
  show "length ?Q = MAX_LOGS" by (rule length_ten)
  let ?S2 = "snd (save_logs_to_eeprom ?Q (snd (save_logs_to_eeprom (add_logs [request_A] []) boot)))"
  let ?R = "map snd (fst (snd (load_logs_from_eeprom alloc_ok [] ?S2)))"
  have cnt: "load_count alloc_ok = MAX_LOGS"
    by (rule load_count_all) (simp add: alloc_ok_nonnull)
  have R: "?R = rev (map (\<lambda>i. loaded_node (eeprom ?S2) i) [0..<MAX_LOGS])"
    by (simp add: load_logs_closed cnt rev_map comp_def)
  have "[0..<MAX_LOGS] = 0 # [1..<MAX_LOGS]"
    by (simp add: MAX_LOGS_def upt_conv_Cons del: upt_Suc)
  then have "last ?R = loaded_node (eeprom ?S2) 0"
    by (simp add: R)
  then have "priority (last ?R) = 5"
    by (simp add: load_after_second_save)
  moreover have "priority (last (rev (map snd ?Q))) = 0"
  proof -
    have "last (rev (map snd ?Q)) = hd (map snd ?Q)" by (rule last_rev)
    also have "\<dots> = snd (hd ?Q)" using ten_nonempty by (rule hd_map)
    finally show ?thesis by (simp only: first_of_ten)
  qed
  ultimately show "?R \<noteq> rev (map snd ?Q)" by auto
  let ?R3 = "map snd (fst (snd (load_logs_from_eeprom alloc_3 []
      (snd (save_logs_to_eeprom ?Q boot)))))"
  have three: "length ?R3 = 3" by (simp add: load_logs_closed load_count_alloc_3)
  have ten: "length (rev (map snd ?Q)) = 10" by (simp add: length_ten MAX_LOGS_def)
  show "?R3 \<noteq> rev (map snd ?Q)"
  proof
    assume "?R3 = rev (map snd ?Q)"
    then have "length ?R3 = length (rev (map snd ?Q))" by (rule arg_cong)
    with three ten show False by simp
  qed
qed

text \<open>
  Claim C3, amended. Let a queue of exactly \<open>MAX_LOGS\<close> nodes with full text arrays
  be saved while the cursor is 0 (as it is after power-up), and let the queue then be
  loaded into an empty queue, from whatever value the cursor has by then, with every
  allocation of the load succeeding. The loaded queue holds the same (text, tick
  count, priority) triples in reverse order.
\<close>

theorem save_load_reverses:
  assumes "chain_wf q" and "length q = MAX_LOGS" and "ee_address s = 0"
    and "\<forall>i<MAX_LOGS. malloc i \<noteq> 0"
  shows "map snd (fst (snd (load_logs_from_eeprom malloc []
           ((snd (save_logs_to_eeprom q s))\<lparr>ee_address := c\<rparr>)))) = rev (map snd q)"
proof -
  let ?m = "eeprom_write_block (chain_image q) 0 (eeprom s)"
  have fits: "sizeof_TaskNode * length q \<le> 2 ^ 16"
    by (simp add: assms(2) sizeof_TaskNode_def MAX_LOGS_def)
  have cnt: "load_count malloc = length q"
    using load_count_all[OF assms(4)] assms(2) by simp
  have node: "loaded_node ?m i = snd (q ! i)" if "i < length q" for i
  proof -
    have "eeprom_read_block (0 + of_nat (sizeof_TaskNode * i)) sizeof_TaskNode ?m =
        node_image (snd (q ! i)) (next_ptr (drop (Suc i) q))"
      by (rule saved_record[OF assms(1) fits that])
    then have "loaded_node ?m i = node_of_image (node_image (snd (q ! i)) (next_ptr (drop (Suc i) q)) @ [])"
      by (simp add: loaded_node_def)
    also have "\<dots> = snd (q ! i)"
      by (rule node_of_image_image[OF chain_wf_nth[OF assms(1) that]])
    finally show ?thesis .
  qed
  have st: "eeprom ((snd (save_logs_to_eeprom q s))\<lparr>ee_address := c\<rparr>) = ?m"
    by (simp add: save_logs_closed[OF assms(1)] assms(3))
  have "map snd (fst (snd (load_logs_from_eeprom malloc []
           ((snd (save_logs_to_eeprom q s))\<lparr>ee_address := c\<rparr>)))) =
        rev (map (\<lambda>i. loaded_node ?m i) [0..<length q])"
    by (simp add: load_logs_closed st cnt rev_map comp_def)
  also have "map (\<lambda>i. loaded_node ?m i) [0..<length q] = map (\<lambda>i. snd (q ! i)) [0..<length q]"
    by (rule map_cong) (simp_all add: node)
  also have "\<dots> = map snd q"
    by (rule nth_equalityI) simp_all
  finally show ?thesis .
qed

theorem save_load_reverses_witness:
  "chain_wf (add_logs ten_requests []) \<and>
   length (add_logs ten_requests []) = MAX_LOGS \<and>
   ee_address boot = 0 \<and>
   map snd (fst (snd (load_logs_from_eeprom alloc_ok []
      ((snd (save_logs_to_eeprom (add_logs ten_requests []) boot))\<lparr>ee_address := 0\<rparr>)))) =
     rev (map snd (add_logs ten_requests []))"
proof -
  have cur: "ee_address boot = 0" by (simp add: boot_def)
  have ok: "\<forall>i<MAX_LOGS. alloc_ok i \<noteq> 0" by (simp add: alloc_ok_nonnull)
  note rt = save_load_reverses[OF chain_wf_ten length_ten cur ok, of 0]
  show ?thesis
    by (intro conjI) (rule chain_wf_ten, rule length_ten, rule cur, rule rt)
qed

subsection \<open>What a load reads\<close>

text \<open>
  Claim C7 says that a load always reads \<open>MAX_LOGS\<close> records. The loop leaves with
  \<^verbatim>\<open>break\<close> when \<^verbatim>\<open>malloc\<close> returns NULL. With memory for three nodes only, the load
  from an erased EEPROM into an empty queue returns three entries and leaves the
  cursor at \<open>3 * 37 = 111\<close>.
\<close>

theorem load_alloc_failure_counterexample:
  "MAX_LOGS = 10 \<and>
   length (fst (snd (load_logs_from_eeprom alloc_3 [] boot))) = 3 \<and>
   ee_address (snd (snd (load_logs_from_eeprom alloc_3 [] boot))) = 111"
  by code_simp

text \<open>
  Claim C7, amended. For every store content, every queue and every behaviour of the
  allocator, a load sets the cursor to 0 and then reads records of \<open>sizeof_TaskNode\<close>
  bytes from the addresses 0, 37, 74, \<dots>, one per round, putting each new node in
  front of the queue as it is then; the queue it found stays behind them, the store
  is not changed, and how many records were saved plays no part. It reads
  \<open>load_count malloc\<close> records: \<open>MAX_LOGS\<close> when every allocation succeeds, and
  otherwise only those of the rounds before the first failed allocation.
\<close>

theorem load_prepends_until_alloc_fails:
  "fst (snd (load_logs_from_eeprom malloc q s)) =
     rev (map (\<lambda>i. (malloc i, loaded_node (eeprom s) i)) [0..<load_count malloc]) @ q \<and>
   ee_address (snd (snd (load_logs_from_eeprom malloc q s))) =
     of_nat (sizeof_TaskNode * load_count malloc) \<and>
   eeprom (snd (snd (load_logs_from_eeprom malloc q s))) = eeprom s \<and>
   load_count malloc \<le> MAX_LOGS \<and>
   ((\<forall>i<MAX_LOGS. malloc i \<noteq> 0) \<longrightarrow> load_count malloc = MAX_LOGS) \<and>
   (\<forall>i<MAX_LOGS. malloc i = 0 \<longrightarrow> load_count malloc \<le> i)"
  using load_count_le[of malloc] load_count_all[of malloc] load_count_fail[of _ malloc]
  by (simp add: load_logs_closed)

theorem load_prepends_until_alloc_fails_witness:
  "load_count alloc_ok = MAX_LOGS \<and>
   length (fst (snd (load_logs_from_eeprom alloc_ok [] boot))) = MAX_LOGS \<and>
   ee_address (snd (snd (load_logs_from_eeprom alloc_ok [] boot))) = 370"
proof -
  have ok: "\<forall>i<MAX_LOGS. alloc_ok i \<noteq> 0"
    by (simp add: alloc_ok_nonnull)
  note t = load_prepends_until_alloc_fails[of alloc_ok "[]" boot]
  note q = t[THEN conjunct1]
  note a = t[THEN conjunct2, THEN conjunct1]
  note all = t[THEN conjunct2, THEN conjunct2, THEN conjunct2, THEN conjunct2, THEN conjunct1]
  from all ok have c: "load_count alloc_ok = MAX_LOGS" by (rule mp)
  have len: "length (fst (snd (load_logs_from_eeprom alloc_ok [] boot))) = MAX_LOGS"
    by (simp add: q c)
  have cur: "ee_address (snd (snd (load_logs_from_eeprom alloc_ok [] boot))) = 370"
    by (simp only: a c) (simp add: MAX_LOGS_def sizeof_TaskNode_def)
  show ?thesis
    by (intro conjI) (rule c, rule len, rule cur)
qed

end
